theory Spec2Isabelle
  imports Main "HOL-Library.Word"
begin

section \<open>JavaScript strings\<close>

text \<open>
  A JavaScript string is modelled as a \<open>string\<close>; one \<open>char\<close> stands for one UTF-16 code
  unit, which is what \<open>length\<close>, \<open>split\<close>, \<open>substring\<close> and \<open>replaceAll\<close> count. A \<open>char\<close>
  has eight bits, so the strings of the model are the strings of code units \<open>U+0000\<close> to
  \<open>U+00FF\<close>. All the characters the program tests for (\<open>0\<close>-\<open>9\<close>, \<open>A\<close>-\<open>F\<close>, \<open>x\<close>, \<open>-\<close>,
  \<open>!\<close>) are ASCII.
\<close>

definition startsWith :: "string \<Rightarrow> string \<Rightarrow> bool" where
  "startsWith s p = (take (length p) s = p)"

text \<open>\<open>s.substring(n)\<close>: the characters from position \<open>n\<close> on, the empty string when \<open>s\<close> is shorter.\<close>

definition substring :: "string \<Rightarrow> nat \<Rightarrow> string" where
  "substring s n = drop n s"

text \<open>\<open>s.replaceAll(c, r)\<close> for a pattern \<open>c\<close> of one character: every occurrence of \<open>c\<close>
  is replaced by \<open>r\<close>, scanning left to right; the replacement text is not scanned again.\<close>

definition replaceAll :: "string \<Rightarrow> char \<Rightarrow> string \<Rightarrow> string" where
  "replaceAll s c r = concat (map (\<lambda>x. if x = c then r else [x]) s)"

text \<open>\<open>s.split(sep)\<close> for a separator of one character: the segments between the
  separators, at least one (\<open>"".split("-")\<close> is \<open>[""]\<close>).\<close>

fun split :: "string \<Rightarrow> char \<Rightarrow> string list" where
  "split [] sep = [[]]"
| "split (c # cs) sep =
     (if c = sep then [] # split cs sep
      else (case split cs sep of
              [] \<Rightarrow> [[c]]
            | seg # segs \<Rightarrow> (c # seg) # segs))"

text \<open>\<open>s.indexOf(c) !== -1\<close> for one character \<open>c\<close>.\<close>

definition contains_char :: "string \<Rightarrow> char \<Rightarrow> bool" where
  "contains_char s c = (c \<in> set s)"

text \<open>
  \<open>parseInt(s, 10)\<close>: leading white space is skipped, a sign is read, then the longest run
  of decimal digits; \<open>None\<close> stands for \<open>NaN\<close> (no digit at that place). The white space
  of \<open>parseInt\<close> is the white space and the line terminators of the language; among the
  code units up to \<open>U+00FF\<close> these are tab, line feed, vertical tab, form feed, carriage
  return, space and the no-break space \<open>U+00A0\<close>.
\<close>

definition isWhiteSpace :: "char \<Rightarrow> bool" where
  "isWhiteSpace c =
     (c \<in> set [CHR 0x09, CHR 0x0A, CHR 0x0B, CHR 0x0C, CHR 0x0D, CHR 0x20, CHR 0xA0])"

definition isDigit :: "char \<Rightarrow> bool" where
  "isDigit c = (c \<in> set ''0123456789'')"

definition digitValue :: "char \<Rightarrow> nat" where
  "digitValue c = of_char c - of_char CHR ''0''"

definition parseDigits :: "string \<Rightarrow> int option" where
  "parseDigits s =
     (let ds = takeWhile isDigit s
      in if ds = [] then None
         else Some (int (foldl (\<lambda>acc d. 10 * acc + digitValue d) 0 ds)))"

definition parseInt :: "string \<Rightarrow> int option" where
  "parseInt s =
     (case dropWhile isWhiteSpace s of
        [] \<Rightarrow> None
      | c # cs \<Rightarrow>
          if c = CHR ''-'' then map_option uminus (parseDigits cs)
          else if c = CHR ''+'' then parseDigits cs
          else parseDigits (c # cs))"

section \<open>Errors\<close>

text \<open>The exceptions of the program, as values. A function that can throw returns
  \<open>js_error + 'a\<close>, with \<open>Inl\<close> the exception.\<close>

datatype js_error =
    TypeError
  | RangeError
  | InvalidInstanceUrl "string option"
  | UnableToParseOrganizationId
  | InvalidOrgId string

section \<open>The schema: fields and types (avro-js)\<close>

text \<open>
  Modelled from the spec: the record codec library (\<open>avro-js\<close>) is an external collaborator
  of the repository. What the resolver uses of it: a field has a name (\<open>getName()\<close>,
  \<open>_name\<close>) and a type (\<open>_type\<close>); a record type has fields (\<open>getFields()\<close>); a union type has
  branch types (\<open>getTypes()\<close>); no other type has \<open>getTypes\<close>, so the call throws a
  \<open>TypeError\<close> there.
\<close>

datatype avro_type =
    RecordType "avro_field list"
  | UnionType "avro_type list"
  | OtherType
and avro_field =
    AvroField (getName: string) (field_type: avro_type)

section \<open>The field bitmap resolver (src/utils/eventParser.js)\<close>

definition hexToBin :: "string \<Rightarrow> string" where
  "hexToBin hex =
     (let bin = substring hex 2;
          bin = replaceAll bin CHR ''0'' ''0000'';
          bin = replaceAll bin CHR ''1'' ''0001'';
          bin = replaceAll bin CHR ''2'' ''0010'';
          bin = replaceAll bin CHR ''3'' ''0011'';
          bin = replaceAll bin CHR ''4'' ''0100'';
          bin = replaceAll bin CHR ''5'' ''0101'';
          bin = replaceAll bin CHR ''6'' ''0110'';
          bin = replaceAll bin CHR ''7'' ''0111'';
          bin = replaceAll bin CHR ''8'' ''1000'';
          bin = replaceAll bin CHR ''9'' ''1001'';
          bin = replaceAll bin CHR ''A'' ''1010'';
          bin = replaceAll bin CHR ''B'' ''1011'';
          bin = replaceAll bin CHR ''C'' ''1100'';
          bin = replaceAll bin CHR ''D'' ''1101'';
          bin = replaceAll bin CHR ''E'' ''1110'';
          bin = replaceAll bin CHR ''F'' ''1111''
      in bin)"

text \<open>The loop of \<open>getFieldNamesFromBitmap\<close>:
  \<open>for (let i = 0; i < binValue.length && i < fields.length; i++)\<close>.\<close>

function bitmapLoop :: "avro_field list \<Rightarrow> string \<Rightarrow> nat \<Rightarrow> string list \<Rightarrow> string list" where
  "bitmapLoop fields binValue i fieldNames =
     (if i < length binValue \<and> i < length fields
      then bitmapLoop fields binValue (Suc i)
             (if binValue ! i = CHR ''1'' then fieldNames @ [getName (fields ! i)] else fieldNames)
      else fieldNames)"
  by pat_completeness auto
termination
  by (relation "measure (\<lambda>(fields, binValue, i, fieldNames). length fields - i)") auto

declare bitmapLoop.simps [simp del]

definition getFieldNamesFromBitmap :: "avro_field list \<Rightarrow> string \<Rightarrow> string list" where
  "getFieldNamesFromBitmap fields fieldBitmapAsHex =
     (let binValue = hexToBin fieldBitmapAsHex;
          binValue = rev binValue
      in bitmapLoop fields binValue 0 [])"

text \<open>\<open>getChildFields\<close>; \<open>parentField\<close> is \<open>None\<close> when the index read of \<open>allFields\<close> gave
  \<open>undefined\<close>, and reading \<open>_type\<close> of it throws.\<close>

definition getChildFields :: "avro_field option \<Rightarrow> js_error + avro_field list" where
  "getChildFields parentField =
     (case parentField of
        None \<Rightarrow> Inl TypeError
      | Some pf \<Rightarrow>
          (case field_type pf of
             UnionType types \<Rightarrow>
               Inr (foldl (\<lambda>fields type.
                      (case type of RecordType fs \<Rightarrow> fields @ fs | _ \<Rightarrow> fields)) [] types)
           | _ \<Rightarrow> Inl TypeError))"

text \<open>\<open>allFields[n]\<close> for the number \<open>n\<close> that \<open>parseInt\<close> returned: \<open>undefined\<close> for
  \<open>NaN\<close>, a negative number or an index past the end.\<close>

definition fieldAt :: "avro_field list \<Rightarrow> int option \<Rightarrow> avro_field option" where
  "fieldAt allFields n =
     (case n of
        None \<Rightarrow> None
      | Some i \<Rightarrow> if 0 \<le> i \<and> nat i < length allFields then Some (allFields ! nat i) else None)"

text \<open>The body of \<open>fieldBitmapsAsHex.forEach\<close> in \<open>parseFieldBitmaps\<close>, over the entries
  left, with the accumulator \<open>fieldNames\<close>; an exception ends the loop.\<close>

fun forEachBitmap :: "avro_field list \<Rightarrow> string list \<Rightarrow> string list \<Rightarrow> js_error + string list" where
  "forEachBitmap allFields [] fieldNames = Inr fieldNames"
| "forEachBitmap allFields (fieldBitmapAsHex # rest) fieldNames =
     (let bitmapMapStrings = split fieldBitmapAsHex CHR ''-''
      in if length bitmapMapStrings \<ge> 2
         then (let parentField = fieldAt allFields (parseInt (bitmapMapStrings ! 0))
               in case getChildFields parentField of
                    Inl e \<Rightarrow> Inl e
                  | Inr childFields \<Rightarrow>
                      (case parentField of
                         None \<Rightarrow> Inl TypeError
                       | Some pf \<Rightarrow>
                           (let childFieldNames =
                                  getFieldNamesFromBitmap childFields (bitmapMapStrings ! 1)
                            in forEachBitmap allFields rest
                                 (fieldNames @
                                  map (\<lambda>fieldName. getName pf @ ''.'' @ fieldName)
                                    childFieldNames))))
         else forEachBitmap allFields rest fieldNames)"

definition parseFieldBitmaps :: "avro_field list \<Rightarrow> string list \<Rightarrow> js_error + string list" where
  "parseFieldBitmaps allFields fieldBitmapsAsHex =
     (if length fieldBitmapsAsHex = 0 then Inr []
      else
        (let fieldNames =
               (if startsWith (fieldBitmapsAsHex ! 0) ''0x''
                then getFieldNamesFromBitmap allFields (fieldBitmapsAsHex ! 0)
                else [])
         in if length fieldBitmapsAsHex > 1 \<and>
               contains_char (fieldBitmapsAsHex ! (length fieldBitmapsAsHex - 1)) CHR ''-''
            then forEachBitmap allFields fieldBitmapsAsHex fieldNames
            else Inr fieldNames))"

text \<open>What \<open>hexToBin\<close> makes of one character: the sixteen replacements of the source,
  in one table. A character that is not in the table stays as it is.\<close>

definition digitBits :: "char \<Rightarrow> string" where
  "digitBits c =
     (case map_of
        [(CHR ''0'', ''0000''), (CHR ''1'', ''0001''), (CHR ''2'', ''0010''), (CHR ''3'', ''0011''),
         (CHR ''4'', ''0100''), (CHR ''5'', ''0101''), (CHR ''6'', ''0110''), (CHR ''7'', ''0111''),
         (CHR ''8'', ''1000''), (CHR ''9'', ''1001''), (CHR ''A'', ''1010''), (CHR ''B'', ''1011''),
         (CHR ''C'', ''1100''), (CHR ''D'', ''1101''), (CHR ''E'', ''1110''), (CHR ''F'', ''1111'')] c of
        Some bits \<Rightarrow> bits
      | None \<Rightarrow> [c])"

subsection \<open>The resolver as the specification words it\<close>

text \<open>
  The number a string of hexadecimal digits denotes, with the digits \<open>a\<close>-\<open>f\<close> in either
  case, and the names of the fields at the positions of its set bits, in the order of
  declaration. Bit \<open>i\<close> of the number is the \<open>i\<close>-th character of the reversed expansion of
  the digits into four bits each.
\<close>

definition isUpperHexDigit :: "char \<Rightarrow> bool" where
  "isUpperHexDigit c = (c \<in> set ''0123456789ABCDEF'')"

definition isLowerHexLetter :: "char \<Rightarrow> bool" where
  "isLowerHexLetter c = (c \<in> set ''abcdef'')"

definition hexDigitValue :: "char \<Rightarrow> nat" where
  "hexDigitValue c =
     (case map_of
        [(CHR ''0'', 0), (CHR ''1'', 1), (CHR ''2'', 2), (CHR ''3'', 3),
         (CHR ''4'', 4), (CHR ''5'', 5), (CHR ''6'', 6), (CHR ''7'', 7),
         (CHR ''8'', 8), (CHR ''9'', 9), (CHR ''A'', 10), (CHR ''B'', 11),
         (CHR ''C'', 12), (CHR ''D'', 13), (CHR ''E'', 14), (CHR ''F'', 15),
         (CHR ''a'', 10), (CHR ''b'', 11), (CHR ''c'', 12), (CHR ''d'', 13),
         (CHR ''e'', 14), (CHR ''f'', 15)] c of
        Some v \<Rightarrow> v
      | None \<Rightarrow> 0)"

definition hexValue :: "string \<Rightarrow> nat" where
  "hexValue ds = foldl (\<lambda>acc d. 16 * acc + hexDigitValue d) 0 ds"

definition namesAtSetBits :: "avro_field list \<Rightarrow> nat \<Rightarrow> string list" where
  "namesAtSetBits fields v = map (\<lambda>i. getName (fields ! i)) (filter (bit v) [0..<length fields])"

text \<open>
  A parent-child pair \<open>"<parentFieldIndex>-<childBitmapHex>"\<close>: the parent index is the text
  before the first \<open>-\<close>, the child bitmap the text after it (up to a further \<open>-\<close>). The
  parent is the field at that index of the top-level fields; its nested fields are the
  fields of the record branches of its union type; the child bitmap is resolved against
  them, and each name is prefixed with the parent's name and a dot. An entry with no
  \<open>-\<close> is not a pair and gives no name.
\<close>

definition recordFields :: "avro_type \<Rightarrow> avro_field list" where
  "recordFields t = (case t of RecordType fs \<Rightarrow> fs | _ \<Rightarrow> [])"

definition pairNames :: "avro_field list \<Rightarrow> string \<Rightarrow> js_error + string list" where
  "pairNames allFields entry =
     (if CHR ''-'' \<notin> set entry then Inr []
      else
        (let parentIndex = takeWhile (\<lambda>c. c \<noteq> CHR ''-'') entry;
             childBitmap = takeWhile (\<lambda>c. c \<noteq> CHR ''-'') (tl (dropWhile (\<lambda>c. c \<noteq> CHR ''-'') entry))
         in case fieldAt allFields (parseInt parentIndex) of
              None \<Rightarrow> Inl TypeError
            | Some parent \<Rightarrow>
                (case field_type parent of
                   UnionType branches \<Rightarrow>
                     Inr (map (\<lambda>child. getName parent @ ''.'' @ child)
                            (getFieldNamesFromBitmap (concat (map recordFields branches)) childBitmap))
                 | _ \<Rightarrow> Inl TypeError)))"

text \<open>The results of the entries in order; the first exception is the result.\<close>

fun collect :: "(js_error + 'a) list \<Rightarrow> js_error + 'a list" where
  "collect [] = Inr []"
| "collect (Inl e # rs) = Inl e"
| "collect (Inr x # rs) = (case collect rs of Inl e \<Rightarrow> Inl e | Inr xs \<Rightarrow> Inr (x # xs))"

text \<open>A schema with a compound field, for the examples.\<close>

definition exampleFields :: "avro_field list" where
  "exampleFields =
     [AvroField ''Id'' OtherType,
      AvroField ''Name''
        (UnionType [OtherType,
           RecordType [AvroField ''FirstName'' OtherType, AvroField ''LastName'' OtherType]]),
      AvroField ''Phone'' OtherType,
      AvroField ''Email'' OtherType]"

section \<open>Numbers: \<open>number\<close> and \<open>bigint\<close>\<close>

text \<open>
  The two JavaScript representations of an integer. \<open>Number v\<close> is the double whose value
  is the integer \<open>v\<close> (the program's numbers here are integral: event counts, cursors and
  Avro longs), \<open>BigInt v\<close> the arbitrary-precision integer \<open>v\<close>.
\<close>

datatype js_long = Number int | BigInt int

fun bigIntOf :: "js_long \<Rightarrow> int" where
  "bigIntOf (Number v) = v"
| "bigIntOf (BigInt v) = v"

text \<open>\<open>n1 === n2\<close>: values of different types are never strictly equal.\<close>

fun strictEquals :: "js_long \<Rightarrow> js_long \<Rightarrow> bool" where
  "strictEquals (Number a) (Number b) = (a = b)"
| "strictEquals (BigInt a) (BigInt b) = (a = b)"
| "strictEquals (Number a) (BigInt b) = False"
| "strictEquals (BigInt a) (Number b) = False"

text \<open>\<open>n1 < n2\<close>: a number and a bigint are compared by their mathematical values.\<close>

fun jsLessThan :: "js_long \<Rightarrow> js_long \<Rightarrow> bool" where
  "jsLessThan n1 n2 = (bigIntOf n1 < bigIntOf n2)"

text \<open>A value in a condition: \<open>0\<close> and \<open>0n\<close> are falsy.\<close>

fun truthy :: "js_long \<Rightarrow> bool" where
  "truthy n = (bigIntOf n \<noteq> 0)"

definition MAX_SAFE_INTEGER :: int where
  "MAX_SAFE_INTEGER = 2 ^ 53 - 1"

definition MIN_SAFE_INTEGER :: int where
  "MIN_SAFE_INTEGER = - (2 ^ 53 - 1)"

text \<open>
  \<open>Number(big)\<close> for a bigint: the double nearest to it, a tie going to the even
  significand of 53 bits. (The doubles end near \<open>2 ^ 1024\<close>; the values here are below
  \<open>2 ^ 64\<close>.)
\<close>

fun bitLength :: "nat \<Rightarrow> nat" where
  "bitLength n = (if n = 0 then 0 else Suc (bitLength (n div 2)))"

declare bitLength.simps [simp del]

definition roundToDouble :: "int \<Rightarrow> int" where
  "roundToDouble v =
     (let m = nat \<bar>v\<bar>;
          r = (if m < 2 ^ 53 then m
               else
                 (let sh = bitLength m - 53;
                      q = m div 2 ^ sh;
                      rest = m mod 2 ^ sh;
                      half = 2 ^ (sh - 1)
                  in if rest < half \<or> (rest = half \<and> even q) then q * 2 ^ sh
                     else (q + 1) * 2 ^ sh))
      in if v < 0 then - int r else int r)"

section \<open>Buffers\<close>

type_synonym byte = "8 word"

text \<open>\<open>buf.readBigUInt64BE()\<close>: the first eight bytes, most significant first; a
  \<open>RangeError\<close> when the buffer is shorter.\<close>

definition readBigUInt64BE :: "byte list \<Rightarrow> js_error + int" where
  "readBigUInt64BE buf =
     (if length buf < 8 then Inl RangeError
      else Inr (foldl (\<lambda>acc b. 256 * acc + uint b) 0 (take 8 buf)))"

text \<open>\<open>buf.writeBigUInt64BE(v, 0)\<close> on a fresh buffer of eight bytes, which the write
  fills; a \<open>RangeError\<close> when \<open>v\<close> is not in \<open>0 .. 2 ^ 64 - 1\<close>.\<close>

definition writeBigUInt64BE :: "int \<Rightarrow> js_error + byte list" where
  "writeBigUInt64BE v =
     (if v < 0 \<or> 2 ^ 64 \<le> v then Inl RangeError
      else Inr (map (\<lambda>i. word_of_int (v div 256 ^ (7 - i))) [0..<8]))"

text \<open>\<open>buf.readBigInt64LE()\<close>: the first eight bytes, least significant first, as a
  signed integer.\<close>

definition readBigInt64LE :: "byte list \<Rightarrow> js_error + int" where
  "readBigInt64LE buf =
     (if length buf < 8 then Inl RangeError
      else
        (let u = foldr (\<lambda>b acc. uint b + 256 * acc) (take 8 buf) 0
         in Inr (if 2 ^ 63 \<le> u then u - 2 ^ 64 else u)))"


definition littleEndianSignedValue :: "byte list \<Rightarrow> int" where
  "littleEndianSignedValue bs =
     (let u = uint (bs ! 0) + uint (bs ! 1) * 2 ^ 8 + uint (bs ! 2) * 2 ^ 16 +
              uint (bs ! 3) * 2 ^ 24 + uint (bs ! 4) * 2 ^ 32 + uint (bs ! 5) * 2 ^ 40 +
              uint (bs ! 6) * 2 ^ 48 + uint (bs ! 7) * 2 ^ 56
      in if u < 2 ^ 63 then u else u - 2 ^ 64)"

section \<open>The replay cursor (src/utils/eventParser.js)\<close>

definition decodeReplayId :: "byte list \<Rightarrow> js_error + js_long" where
  "decodeReplayId encodedReplayId =
     (case readBigUInt64BE encodedReplayId of
        Inl e \<Rightarrow> Inl e
      | Inr big \<Rightarrow> Inr (Number (roundToDouble big)))"

definition encodeReplayId :: "js_long \<Rightarrow> js_error + byte list" where
  "encodeReplayId replayId = writeBigUInt64BE (bigIntOf replayId)"

section \<open>The custom long type (src/client.js)\<close>

text \<open>\<open>BigInt.asIntN(64, big)\<close>.\<close>

definition asIntN64 :: "int \<Rightarrow> int" where
  "asIntN64 big = (big + 2 ^ 63) mod 2 ^ 64 - 2 ^ 63"

definition fromBuffer :: "byte list \<Rightarrow> js_error + js_long" where
  "fromBuffer buf =
     (case readBigInt64LE buf of
        Inl e \<Rightarrow> Inl e
      | Inr big \<Rightarrow>
          if big < MIN_SAFE_INTEGER \<or> big > MAX_SAFE_INTEGER then Inr (BigInt big)
          else Inr (Number (roundToDouble (asIntN64 big))))"

text \<open>\<open>fromJSON: BigInt\<close>.\<close>

definition fromJSON :: "js_long \<Rightarrow> js_long" where
  "fromJSON n = BigInt (bigIntOf n)"

definition compare :: "js_long \<Rightarrow> js_long \<Rightarrow> int" where
  "compare n1 n2 = (if strictEquals n1 n2 then 0 else if jsLessThan n1 n2 then - 1 else 1)"

section \<open>Flattening a decoded record (src/utils/eventParser.js)\<close>

text \<open>
  A decoded value, as \<open>flattenSinglePropertyObjects\<close> tells values apart: \<open>Object\<close> is a
  value whose \<open>typeof\<close> is \<open>"object"\<close> and that is not \<open>null\<close>, with its own enumerable
  properties in the order of \<open>Object.entries\<close> (an array is the object of its indices);
  \<open>Null\<close> is \<open>null\<close>; \<open>Primitive\<close> is any other value. The function changes its argument
  in place; the model returns the changed object.
\<close>

datatype 'p js_value =
    Primitive 'p
  | Null
  | Object "(string \<times> 'p js_value) list"

fun flattenSinglePropertyObjects :: "(string \<times> 'p js_value) list \<Rightarrow> (string \<times> 'p js_value) list" where
  "flattenSinglePropertyObjects [] = []"
| "flattenSinglePropertyObjects ((key, Object [(subKey, Object sub)]) # rest) =
     (if key \<noteq> ''ChangeEventHeader''
      then (key, Object (flattenSinglePropertyObjects sub))
      else (key, Object [(subKey, Object sub)]))
     # flattenSinglePropertyObjects rest"
| "flattenSinglePropertyObjects ((key, Object [(subKey, subValue)]) # rest) =
     (if key \<noteq> ''ChangeEventHeader''
      then (key, subValue)
      else (key, Object [(subKey, subValue)]))
     # flattenSinglePropertyObjects rest"
| "flattenSinglePropertyObjects ((key, value) # rest) =
     (key, value) # flattenSinglePropertyObjects rest"

text \<open>A single-key structure, and what replaces it: its inner value, flattened when it
  is a structure itself.\<close>

fun isSingleKeyStructure :: "'p js_value \<Rightarrow> bool" where
  "isSingleKeyStructure (Object [kv]) = True"
| "isSingleKeyStructure v = False"

fun flattened :: "'p js_value \<Rightarrow> 'p js_value" where
  "flattened (Object sub) = Object (flattenSinglePropertyObjects sub)"
| "flattened v = v"

fun replacement :: "'p js_value \<Rightarrow> 'p js_value" where
  "replacement (Object [(subKey, subValue)]) = flattened subValue"
| "replacement v = v"

text \<open>A decoded change event, for the examples.\<close>

definition exampleRecord :: "(string \<times> nat js_value) list" where
  "exampleRecord =
     [(''ChangeEventHeader'', Object [(''entityName'', Primitive 1)]),
      (''FirstName'', Object [(''string'', Primitive 5)]),
      (''Address'',
        Object [(''Address'',
          Object [(''City'', Object [(''string'', Primitive 7)]), (''Zip'', Null)])]),
      (''Amount'', Primitive 9),
      (''Tags'', Object [(''0'', Primitive 2), (''1'', Primitive 3)])]"

section \<open>User-supplied authentication (src/client.js)\<close>

text \<open>
  An argument of \<open>connectWithAuth\<close> is \<open>None\<close> when the caller passes \<open>undefined\<close>. The
  function ends by handing the metadata to \<open>#connectToPubSubApi\<close>, which opens the channel;
  the model returns that metadata.
\<close>

record connection_metadata =
  accessToken :: "string option"
  instanceUrl :: string
  organizationId :: string

text \<open>\<open>!s\<close> for an optional string: \<open>undefined\<close> and the empty string are falsy.\<close>

definition falsy :: "string option \<Rightarrow> bool" where
  "falsy s = (case s of None \<Rightarrow> True | Some t \<Rightarrow> t = [])"

definition connectWithAuth ::
  "string option \<Rightarrow> string option \<Rightarrow> string option \<Rightarrow> js_error + connection_metadata" where
  "connectWithAuth accessTokenArg instanceUrlArg organizationIdArg =
     (case instanceUrlArg of
        None \<Rightarrow> Inl (InvalidInstanceUrl None)
      | Some url \<Rightarrow>
          if url = [] \<or> \<not> startsWith url ''https://'' then Inl (InvalidInstanceUrl (Some url))
          else
            (case (if falsy organizationIdArg
                   then (case accessTokenArg of
                           None \<Rightarrow> Inl UnableToParseOrganizationId
                         | Some token \<Rightarrow>
                             (case split token CHR ''!'' of
                                [] \<Rightarrow> Inl TypeError
                              | segment # _ \<Rightarrow> Inr segment))
                   else (case organizationIdArg of
                           None \<Rightarrow> Inl TypeError
                         | Some supplied \<Rightarrow> Inr supplied)) of
               Inl e \<Rightarrow> Inl e
             | Inr validOrganizationId \<Rightarrow>
                 if length validOrganizationId \<noteq> 15 \<and> length validOrganizationId \<noteq> 18
                 then Inl (InvalidOrgId validOrganizationId)
                 else Inr \<lparr>accessToken = accessTokenArg, instanceUrl = url,
                           organizationId = validOrganizationId\<rparr>))"

section \<open>The subscription (src/pubSubEventEmitter.js, src/client.js)\<close>

record producer_event =
  schemaId :: string
  payload :: "byte list"

record consumer_event =
  replayId :: "byte list"
  event :: producer_event

text \<open>A message of the stream; \<open>events\<close> is \<open>None\<close> when the message has no \<open>events\<close>
  property. The type of the cursor is a parameter: bytes on the wire, a number once
  \<open>data.latestReplayId = latestReplayId\<close> has replaced it.\<close>

record 'r fetch_response =
  latestReplayId :: 'r
  events :: "consumer_event list option"
  pendingNumRequested :: int

text \<open>The message of an \<open>EventParseError\<close>: one of the two template strings.\<close>

datatype parse_message =
    FailedWithReplayId js_long
  | FailedUnknownReplayId js_long

text \<open>
  The values that are emitted, logged, thrown and caught in the subscription: a parsed
  event (\<open>'p\<close>); an exception object of the decoder, of a listener or of the logger
  (\<open>'c\<close>); an exception of the functions modelled here; an \<open>EventParseError\<close> (message,
  cause, replay id or \<open>undefined\<close>, the raw event, latest replay id), whose cause is the
  value that the outer \<open>catch\<close> caught; the changed message of a keepalive; and
  \<open>undefined\<close>, for an \<open>emit\<close> with no argument.
\<close>

datatype ('p, 'c) js_val =
    ParsedEvent 'p
  | Exception 'c
  | JsError js_error
  | EventParseError parse_message "('p, 'c) js_val" "js_long option" consumer_event js_long
  | KeepaliveData "js_long fetch_response"
  | NoArgs

text \<open>
  \<open>PubSubEventEmitter\<close>: its three private fields, and of the \<open>EventEmitter\<close> it extends
  \<^item> \<open>emitted\<close>, the calls of \<open>super.emit\<close> in order, and
  \<^item> \<open>listener\<close>, the listeners by event name: \<open>None\<close> when none is registered for the
    name, else what calling them in turn with a value does, \<open>Some x\<close> when one of them
    throws \<open>x\<close> and \<open>None\<close> when they all return. A listener is taken not to call
    back into the emitter.
\<close>

record 'a emitter =
  topicName :: string
  requestedEventCount :: nat
  receivedEventCount :: nat
  emitted :: "(string \<times> 'a) list"
  listener :: "string \<Rightarrow> ('a \<Rightarrow> 'a option) option"

text \<open>The result of a step that can throw: the value thrown, if any, and the emitter
  after the step (what a step did before it threw stays done).\<close>

type_synonym 'a step = "'a option \<times> 'a emitter"

definition newEmitter :: "string \<Rightarrow> nat \<Rightarrow> 'a emitter" where
  "newEmitter topic requested =
     \<lparr>topicName = topic, requestedEventCount = requested, receivedEventCount = 0, emitted = [],
      listener = (\<lambda>eventName. None)\<rparr>"

text \<open>\<open>emitter.on(eventName, f)\<close>: \<open>f\<close> is called after the listeners already there.\<close>

definition on :: "string \<Rightarrow> ('a \<Rightarrow> 'a option) \<Rightarrow> 'a emitter \<Rightarrow> 'a emitter" where
  "on eventName f em =
     em\<lparr>listener := (listener em)
           (eventName :=
              (case listener em eventName of
                 None \<Rightarrow> Some f
               | Some g \<Rightarrow> Some (\<lambda>args. case g args of Some x \<Rightarrow> Some x | None \<Rightarrow> f args)))\<rparr>"

text \<open>
  \<open>super.emit(eventName, args)\<close> of the \<open>EventEmitter\<close>: with no listener for \<open>"error"\<close>
  the value emitted is thrown (the subscription emits \<open>Error\<close> objects there, which are
  thrown as they are); an exception of a listener leaves \<open>emit\<close>.
\<close>

definition superEmit :: "string \<Rightarrow> 'a \<Rightarrow> 'a emitter \<Rightarrow> 'a step" where
  "superEmit eventName args em =
     (let em1 = em\<lparr>emitted := emitted em @ [(eventName, args)]\<rparr>
      in case listener em eventName of
           None \<Rightarrow> (if eventName = ''error'' then (Some args, em1) else (None, em1))
         | Some f \<Rightarrow> (f args, em1))"

definition emit :: "string \<Rightarrow> 'a \<Rightarrow> 'a emitter \<Rightarrow> 'a step" where
  "emit eventName args em =
     (let em1 = (if eventName = ''data''
                 then em\<lparr>receivedEventCount := receivedEventCount em + 1\<rparr>
                 else em)
      in superEmit eventName args em1)"

text \<open>Sequencing and \<open>try\<close>/\<open>catch\<close> for steps: the second step runs when the first did
  not throw; the handler runs when the body threw, with the value thrown.\<close>

definition andThen :: "'a step \<Rightarrow> ('a emitter \<Rightarrow> 'a step) \<Rightarrow> 'a step" where
  "andThen first second =
     (case first of
        (Some thrown, em) \<Rightarrow> (Some thrown, em)
      | (None, em) \<Rightarrow> second em)"

definition tryCatch :: "'a step \<Rightarrow> ('a \<Rightarrow> 'a emitter \<Rightarrow> 'a step) \<Rightarrow> 'a step" where
  "tryCatch body handler =
     (case body of
        (Some thrown, em) \<Rightarrow> handler thrown em
      | (None, em) \<Rightarrow> (None, em))"

text \<open>
  The calls of the logger, by method and first argument that is not a string, and the
  logger: for a call, the exception it throws, if any (\<open>console\<close>, the default, throws
  none).
\<close>

datatype ('p, 'c) log_call =
    LogDebug "('p, 'c) js_val"
  | LogError "('p, 'c) js_val"
  | LogInfoReceived "(byte list) fetch_response"
  | LogDebugKeepalive "(byte list) fetch_response"

definition logCall ::
  "(('p, 'c) log_call \<Rightarrow> 'c option) \<Rightarrow> ('p, 'c) log_call \<Rightarrow>
     ('p, 'c) js_val emitter \<Rightarrow> ('p, 'c) js_val step" where
  "logCall logger call em = (map_option Exception (logger call), em)"

text \<open>The check after the \<open>try\<close> statement of the callback.\<close>

definition lastEventCheck :: "('p, 'c) js_val emitter \<Rightarrow> ('p, 'c) js_val step" where
  "lastEventCheck em =
     (if receivedEventCount em = requestedEventCount em
      then emit ''lastevent'' NoArgs em
      else (None, em))"

text \<open>
  The callback of \<open>data.events.forEach\<close> for one event, from the point where the schema
  is there: its \<open>try\<close> block, its \<open>catch\<close> block with the two \<open>try\<close> statements in it, and
  the callback. \<open>parse\<close> stands for the first two calls in the \<open>try\<close> block,
  \<open>#getEventSchemaById\<close> and \<open>parseEvent\<close>: \<open>Inr\<close> the parsed event, \<open>Inl\<close> the exception
  thrown. The value thrown in the result of the callback is the reason with which it
  rejects.
\<close>

definition tryBlock ::
  "(consumer_event \<Rightarrow> 'c + 'p) \<Rightarrow> (('p, 'c) log_call \<Rightarrow> 'c option) \<Rightarrow>
     consumer_event \<Rightarrow> ('p, 'c) js_val emitter \<Rightarrow> ('p, 'c) js_val step" where
  "tryBlock parse logger ev em =
     (case parse ev of
        Inl e \<Rightarrow> (Some (Exception e), em)
      | Inr parsedEvent \<Rightarrow>
          andThen (logCall logger (LogDebug (ParsedEvent parsedEvent)) em)
            (emit ''data'' (ParsedEvent parsedEvent)))"

definition catchBlock ::
  "(('p, 'c) log_call \<Rightarrow> 'c option) \<Rightarrow> js_long \<Rightarrow> consumer_event \<Rightarrow>
     ('p, 'c) js_val \<Rightarrow> ('p, 'c) js_val emitter \<Rightarrow> ('p, 'c) js_val step" where
  "catchBlock logger latest ev error em =
     (let rid = (case decodeReplayId (replayId ev) of
                   Inl decodeError \<Rightarrow> None
                 | Inr r \<Rightarrow> Some r)
      in andThen
           (case decodeReplayId (replayId ev) of
              Inl decodeError \<Rightarrow> logCall logger (LogError (JsError decodeError)) em
            | Inr r \<Rightarrow> (None, em))
           (\<lambda>em1.
              (let message = (case rid of
                                None \<Rightarrow> FailedUnknownReplayId latest
                              | Some r \<Rightarrow> if truthy r then FailedWithReplayId r
                                          else FailedUnknownReplayId latest);
                   parseError = EventParseError message error rid ev latest
               in tryCatch
                    (andThen (emit ''error'' parseError em1)
                       (logCall logger (LogError parseError)))
                    (\<lambda>eventParseError em2.
                       andThen (emit ''error'' eventParseError em2)
                         (logCall logger (LogError eventParseError))))))"

definition onEvent ::
  "(consumer_event \<Rightarrow> 'c + 'p) \<Rightarrow> (('p, 'c) log_call \<Rightarrow> 'c option) \<Rightarrow> js_long \<Rightarrow>
     consumer_event \<Rightarrow> ('p, 'c) js_val emitter \<Rightarrow> ('p, 'c) js_val step" where
  "onEvent parse logger latest ev em =
     andThen
       (tryCatch (tryBlock parse logger ev em) (catchBlock logger latest ev))
       lastEventCheck"

text \<open>
  The callbacks of one batch. Each callback waits for its schema and then runs to its end
  without a further wait, so the callbacks run one after the other; the list is the
  events in the order in which their callbacks run (the order of the batch when the
  schemas are cached). A callback that rejects does not stop the others.
\<close>

fun forEachEvent ::
  "(consumer_event \<Rightarrow> 'c + 'p) \<Rightarrow> (('p, 'c) log_call \<Rightarrow> 'c option) \<Rightarrow> js_long \<Rightarrow>
     consumer_event list \<Rightarrow> ('p, 'c) js_val emitter \<Rightarrow> ('p, 'c) js_val emitter" where
  "forEachEvent parse logger latest [] em = em"
| "forEachEvent parse logger latest (ev # evs) em =
     forEachEvent parse logger latest evs (snd (onEvent parse logger latest ev em))"


text \<open>How often a notification of a name has been emitted.\<close>

definition emittedCount :: "string \<Rightarrow> 'a emitter \<Rightarrow> nat" where
  "emittedCount eventName em = length (filter (\<lambda>n. fst n = eventName) (emitted em))"

definition decodes :: "(consumer_event \<Rightarrow> 'c + 'p) \<Rightarrow> consumer_event \<Rightarrow> bool" where
  "decodes parse ev = (case parse ev of Inl e \<Rightarrow> False | Inr p \<Rightarrow> True)"

text \<open>
  A setting in which no call throws: there is a listener for \<open>"error"\<close>, no listener
  throws, and the logger does not throw.
\<close>

definition quiet ::
  "(('p, 'c) log_call \<Rightarrow> 'c option) \<Rightarrow> ('p, 'c) js_val emitter \<Rightarrow> bool" where
  "quiet logger em =
     (listener em ''error'' \<noteq> None \<and>
      (\<forall>eventName f args. listener em eventName = Some f \<longrightarrow> f args = None) \<and>
      (\<forall>call. logger call = None))"

text \<open>Events, a decoder, a logger and an emitter for the examples: an event decodes when
  its payload is not empty, the logger is silent, and the subscriber listens to \<open>"data"\<close>
  and \<open>"error"\<close>.\<close>

definition exampleEvent :: "byte list \<Rightarrow> consumer_event" where
  "exampleEvent bytes =
     \<lparr>replayId = [0, 0, 0, 0, 0, 0, 0, 7], event = \<lparr>schemaId = ''s'', payload = bytes\<rparr>\<rparr>"

definition exampleParse :: "consumer_event \<Rightarrow> unit + nat" where
  "exampleParse ev = (if payload (event ev) = [] then Inl () else Inr (length (payload (event ev))))"

definition exampleLogger :: "(nat, unit) log_call \<Rightarrow> unit option" where
  "exampleLogger call = None"

definition exampleEmitter :: "nat \<Rightarrow> (nat, unit) js_val emitter" where
  "exampleEmitter requested =
     on ''error'' (\<lambda>args. None) (on ''data'' (\<lambda>args. None) (newEmitter ''topic'' requested))"

section \<open>Facts about the string functions\<close>

lemma split_nonempty: "split s c \<noteq> []"
  by (induction s) (auto split: list.splits)

lemma split_no_sep: "c \<notin> set s \<Longrightarrow> split s c = [s]"
  by (induction s) auto

lemma split_at_sep:
  "c \<in> set s \<Longrightarrow>
   split s c = takeWhile (\<lambda>x. x \<noteq> c) s # split (tl (dropWhile (\<lambda>x. x \<noteq> c) s)) c"
proof (induction s)
  case Nil
  then show ?case by simp
next
  case (Cons x xs)
  show ?case
  proof (cases "x = c")
    case True
    then show ?thesis by simp
  next
    case False
    with Cons.prems have "c \<in> set xs" by simp
    with Cons.IH False show ?thesis by simp
  qed
qed

lemma split_hd: "hd (split s c) = takeWhile (\<lambda>x. x \<noteq> c) s"
proof (cases "c \<in> set s")
  case True
  then show ?thesis by (simp add: split_at_sep)
next
  case False
  have "hd (split s c) = s"
    by (simp add: split_no_sep [OF False])
  moreover have "takeWhile (\<lambda>x. x \<noteq> c) s = s"
    using False by (induction s) auto
  ultimately show ?thesis by (simp only:)
qed

lemma split_length_ge_2: "(2 \<le> length (split s c)) = (c \<in> set s)"
proof (cases "c \<in> set s")
  case True
  have "1 \<le> length (split (tl (dropWhile (\<lambda>x. x \<noteq> c) s)) c)"
    using split_nonempty [of "tl (dropWhile (\<lambda>x. x \<noteq> c) s)" c]
    by (cases "split (tl (dropWhile (\<lambda>x. x \<noteq> c) s)) c") simp_all
  with True show ?thesis by (simp add: split_at_sep)
next
  case False
  then show ?thesis by (simp add: split_no_sep)
qed

lemma split_second:
  "c \<in> set s \<Longrightarrow>
   split s c ! 1 = takeWhile (\<lambda>x. x \<noteq> c) (tl (dropWhile (\<lambda>x. x \<noteq> c) s))"
proof -
  assume "c \<in> set s"
  then have "split s c ! 1 = hd (split (tl (dropWhile (\<lambda>x. x \<noteq> c) s)) c)"
    using split_nonempty [of "tl (dropWhile (\<lambda>x. x \<noteq> c) s)" c]
    by (simp add: split_at_sep hd_conv_nth)
  then show ?thesis by (simp add: split_hd)
qed

section \<open>Facts about the field bitmap resolver\<close>

lemma foldl_record_fields:
  "foldl (\<lambda>fields type. (case type of RecordType fs \<Rightarrow> fields @ fs | _ \<Rightarrow> fields)) acc types
     = acc @ concat (map recordFields types)"
proof (induction types arbitrary: acc)
  case Nil
  then show ?case by simp
next
  case (Cons t ts)
  then show ?case by (cases t) (simp_all add: recordFields_def)
qed

lemma forEachBitmap_step:
  "forEachBitmap allFields (entry # rest) acc =
     (case pairNames allFields entry of
        Inl e \<Rightarrow> Inl e
      | Inr names \<Rightarrow> forEachBitmap allFields rest (acc @ names))"
proof (cases "CHR ''-'' \<in> set entry")
  case False
  then show ?thesis
    by (simp add: pairNames_def split_no_sep)
next
  case True
  then have len: "2 \<le> length (split entry CHR ''-'')"
    by (simp add: split_length_ge_2)
  have first: "split entry CHR ''-'' ! 0 = takeWhile (\<lambda>c. c \<noteq> CHR ''-'') entry"
    using split_hd [of entry "CHR ''-''"] split_nonempty [of entry "CHR ''-''"]
    by (simp add: hd_conv_nth)
  have second: "split entry CHR ''-'' ! 1 =
      takeWhile (\<lambda>c. c \<noteq> CHR ''-'') (tl (dropWhile (\<lambda>c. c \<noteq> CHR ''-'') entry))"
    using True by (rule split_second)
  show ?thesis
    using True len
    by (simp only: forEachBitmap.simps Let_def first second pairNames_def getChildFields_def
          foldl_record_fields)
       (simp split: option.splits avro_type.splits)
qed

lemma forEachBitmap_collect:
  "forEachBitmap allFields entries acc =
     (case collect (map (pairNames allFields) entries) of
        Inl e \<Rightarrow> Inl e
      | Inr groups \<Rightarrow> Inr (acc @ concat groups))"
proof (induction entries arbitrary: acc)
  case Nil
  then show ?case by simp
next
  case (Cons entry rest)
  show ?case
    unfolding forEachBitmap_step Cons.IH
    by (cases "pairNames allFields entry") (simp_all split: sum.splits)
qed

lemma replaceAll_concat_map:
  "replaceAll (concat (map f s)) c r = concat (map (\<lambda>x. replaceAll (f x) c r) s)"
  by (induction s) (simp_all add: replaceAll_def)

lemma replaceAll_as_map: "replaceAll s c r = concat (map (\<lambda>x. replaceAll [x] c r) s)"
  by (simp add: replaceAll_def)

lemma digit_chain:
  "replaceAll (replaceAll (replaceAll (replaceAll (replaceAll (replaceAll (replaceAll (replaceAll
   (replaceAll (replaceAll (replaceAll (replaceAll (replaceAll (replaceAll (replaceAll (replaceAll [x]
     CHR ''0'' ''0000'') CHR ''1'' ''0001'') CHR ''2'' ''0010'') CHR ''3'' ''0011'')
     CHR ''4'' ''0100'') CHR ''5'' ''0101'') CHR ''6'' ''0110'') CHR ''7'' ''0111'')
     CHR ''8'' ''1000'') CHR ''9'' ''1001'') CHR ''A'' ''1010'') CHR ''B'' ''1011'')
     CHR ''C'' ''1100'') CHR ''D'' ''1101'') CHR ''E'' ''1110'') CHR ''F'' ''1111'' = digitBits x"
  by (simp add: replaceAll_def digitBits_def)

lemma hexToBin_map: "hexToBin hex = concat (map digitBits (drop 2 hex))"
proof -
  have "hexToBin hex = concat (map (\<lambda>x.
   replaceAll (replaceAll (replaceAll (replaceAll (replaceAll (replaceAll (replaceAll (replaceAll
   (replaceAll (replaceAll (replaceAll (replaceAll (replaceAll (replaceAll (replaceAll (replaceAll [x]
     CHR ''0'' ''0000'') CHR ''1'' ''0001'') CHR ''2'' ''0010'') CHR ''3'' ''0011'')
     CHR ''4'' ''0100'') CHR ''5'' ''0101'') CHR ''6'' ''0110'') CHR ''7'' ''0111'')
     CHR ''8'' ''1000'') CHR ''9'' ''1001'') CHR ''A'' ''1010'') CHR ''B'' ''1011'')
     CHR ''C'' ''1100'') CHR ''D'' ''1101'') CHR ''E'' ''1110'') CHR ''F'' ''1111'') (drop 2 hex))"
    unfolding hexToBin_def Let_def substring_def
    by (subst replaceAll_as_map [of "drop 2 hex"]) (simp only: replaceAll_concat_map)
  then show ?thesis by (simp only: digit_chain)
qed

lemma bitmapLoop_eq:
  "bitmapLoop fs bin i acc =
     acc @ map (\<lambda>j. getName (fs ! j))
             (filter (\<lambda>j. bin ! j = CHR ''1'') [i..<min (length bin) (length fs)])"
proof (induction fs bin i acc rule: bitmapLoop.induct)
  case (1 fs bin i acc)
  show ?case
  proof (cases "i < length bin \<and> i < length fs")
    case True
    then have "[i..<min (length bin) (length fs)] = i # [Suc i..<min (length bin) (length fs)]"
      by (simp add: upt_conv_Cons)
    with True 1 show ?thesis
      by (subst bitmapLoop.simps) simp
  next
    case False
    then show ?thesis by (subst bitmapLoop.simps) auto
  qed
qed

lemma getFieldNamesFromBitmap_eq:
  "getFieldNamesFromBitmap fs hex =
     map (\<lambda>j. getName (fs ! j))
       (filter (\<lambda>j. rev (hexToBin hex) ! j = CHR ''1'')
          [0..<min (length (hexToBin hex)) (length fs)])"
  by (simp add: getFieldNamesFromBitmap_def bitmapLoop_eq Let_def)

lemma hexDigitValue_lt: "hexDigitValue c < 16"
  by (simp add: hexDigitValue_def)

lemma hexValue_snoc: "hexValue (ds @ [d]) = 16 * hexValue ds + hexDigitValue d"
  by (simp add: hexValue_def)

lemma hexValue_lt: "hexValue ds < 16 ^ length ds"
proof (induction ds rule: rev_induct)
  case Nil
  then show ?case by (simp add: hexValue_def)
next
  case (snoc d ds)
  have "hexDigitValue d < 16" by (rule hexDigitValue_lt)
  with snoc show ?case by (simp add: hexValue_snoc)
qed

lemma rev_digitBits_table:
  "\<forall>c\<in>set ''0123456789ABCDEF''.
     rev (digitBits c) = map (\<lambda>i. if bit (hexDigitValue c) i then CHR ''1'' else CHR ''0'') [0, 1, 2, 3]"
  by (simp add: digitBits_def hexDigitValue_def bit_Suc_0_iff)

lemma rev_digitBits_upper:
  "isUpperHexDigit c \<Longrightarrow>
   rev (digitBits c) = map (\<lambda>i. if bit (hexDigitValue c) i then CHR ''1'' else CHR ''0'') [0, 1, 2, 3]"
  using rev_digitBits_table unfolding isUpperHexDigit_def by blast

lemma bit_hex_nat:
  fixes h dv :: nat
  assumes "dv < 16"
  shows "bit (16 * h + dv) i = (if i < 4 then bit dv i else bit h (i - 4))"
proof (cases "i < 4")
  case True
  have "take_bit 4 (16 * h + dv) = dv"
    using assms by (simp add: take_bit_eq_mod)
  then have "bit dv i = bit (take_bit 4 (16 * h + dv)) i" by simp
  also have "\<dots> = bit (16 * h + dv) i"
    using True by (simp add: bit_take_bit_iff)
  finally show ?thesis using True by simp
next
  case False
  have "drop_bit 4 (16 * h + dv) = h"
    using assms by (simp add: drop_bit_eq_div)
  then have "bit h (i - 4) = bit (drop_bit 4 (16 * h + dv)) (i - 4)" by simp
  also have "\<dots> = bit (16 * h + dv) i"
    using False by (simp add: bit_drop_bit_eq)
  finally show ?thesis using False by simp
qed

lemma upt_4: "[0..<4] = [0, 1, 2, 3::nat]"
  by (simp add: upt_rec)

lemma upt_nibbles: "[0..<4 * Suc n] = [0..<4] @ map (\<lambda>i. i + 4) [0..<4 * n]"
proof -
  have "[0..<4 * Suc n] = [0..<4] @ [4..<4 + 4 * n]"
    by (simp add: upt_add_eq_append [of 0 4 "4 * n", simplified])
  moreover have "[4..<4 + 4 * n] = map (\<lambda>i. i + 4) [0..<4 * n]"
    by (simp add: map_add_upt add.commute)
  ultimately show ?thesis by simp
qed

lemma rev_hex_bits:
  "list_all isUpperHexDigit ds \<Longrightarrow>
   rev (concat (map digitBits ds)) =
     map (\<lambda>i. if bit (hexValue ds) i then CHR ''1'' else CHR ''0'') [0..<4 * length ds]"
proof (induction ds rule: rev_induct)
  case Nil
  then show ?case by simp
next
  case (snoc d ds)
  let ?f = "\<lambda>v i. if bit (v::nat) i then CHR ''1'' else CHR ''0''"
  have d: "isUpperHexDigit d" and ds: "list_all isUpperHexDigit ds"
    using snoc.prems by simp_all
  have lt: "hexDigitValue d < 16" by (rule hexDigitValue_lt)
  have split_upt: "[0..<4 * length (ds @ [d])] = [0..<4] @ map (\<lambda>i. i + 4) [0..<4 * length ds]"
    using upt_nibbles [of "length ds"] by simp
  have low: "map (?f (hexValue (ds @ [d]))) [0..<4] = map (?f (hexDigitValue d)) [0, 1, 2, 3]"
    unfolding upt_4 using lt by (simp add: hexValue_snoc bit_hex_nat)
  have high: "map (?f (hexValue (ds @ [d]))) (map (\<lambda>i. i + 4) [0..<4 * length ds])
                = map (?f (hexValue ds)) [0..<4 * length ds]"
    using lt by (simp add: hexValue_snoc bit_hex_nat)
  have "rev (concat (map digitBits (ds @ [d]))) = rev (digitBits d) @ rev (concat (map digitBits ds))"
    by simp
  also have "\<dots> = map (?f (hexDigitValue d)) [0, 1, 2, 3] @ map (?f (hexValue ds)) [0..<4 * length ds]"
    using rev_digitBits_upper [OF d] snoc.IH [OF ds] by simp
  also have "\<dots> = map (?f (hexValue (ds @ [d]))) [0..<4 * length (ds @ [d])]"
    unfolding split_upt map_append low high ..
  finally show ?case .
qed

lemma bit_hexValue_bound: "bit (hexValue ds) i \<Longrightarrow> i < 4 * length ds"
proof (rule ccontr)
  assume b: "bit (hexValue ds) i" and "\<not> i < 4 * length ds"
  then have "4 * length ds \<le> i" by simp
  then have le: "(2::nat) ^ (4 * length ds) \<le> 2 ^ i" by simp
  have lt: "hexValue ds < 2 ^ (4 * length ds)"
    using hexValue_lt [of ds] by (simp add: power_mult)
  from lt le have "hexValue ds < 2 ^ i" by (rule less_le_trans)
  then have "\<not> bit (hexValue ds) i" by (simp add: bit_iff_odd)
  with b show False by simp
qed

lemma filter_bits_beyond:
  "4 * length ds \<le> m \<Longrightarrow> filter (bit (hexValue ds)) [m..<n] = []"
proof -
  assume m: "4 * length ds \<le> m"
  have "\<not> bit (hexValue ds) x" if "x \<in> set [m..<n]" for x
  proof
    assume b: "bit (hexValue ds) x"
    from that m have "4 * length ds \<le> x" by simp
    with bit_hexValue_bound [OF b] show False by simp
  qed
  then show ?thesis by (simp add: filter_empty_conv)
qed

lemma getFieldNamesFromBitmap_bits:
  assumes "list_all isUpperHexDigit (drop 2 hex)"
  shows "getFieldNamesFromBitmap fs hex = namesAtSetBits fs (hexValue (drop 2 hex))"
proof -
  let ?ds = "drop 2 hex"
  let ?bin = "rev (hexToBin hex)"
  let ?m = "min (4 * length ?ds) (length fs)"
  have bin: "?bin = map (\<lambda>i. if bit (hexValue ?ds) i then CHR ''1'' else CHR ''0'') [0..<4 * length ?ds]"
    using rev_hex_bits [OF assms] by (simp add: hexToBin_map)
  then have "length ?bin = 4 * length ?ds" by simp
  then have len: "length (hexToBin hex) = 4 * length ?ds" by simp
  have nth: "\<And>j. j < ?m \<Longrightarrow> (?bin ! j = CHR ''1'') = bit (hexValue ?ds) j"
    by (simp add: bin)
  have "getFieldNamesFromBitmap fs hex =
          map (\<lambda>j. getName (fs ! j)) (filter (\<lambda>j. ?bin ! j = CHR ''1'') [0..<?m])"
    by (simp only: getFieldNamesFromBitmap_eq len)
  also have "filter (\<lambda>j. ?bin ! j = CHR ''1'') [0..<?m] = filter (bit (hexValue ?ds)) [0..<?m]"
    by (rule filter_cong) (simp_all add: nth)
  also have "\<dots> = filter (bit (hexValue ?ds)) [0..<length fs]"
  proof (cases "4 * length ?ds \<le> length fs")
    case True
    have "[0..<4 * length ?ds + (length fs - 4 * length ?ds)] =
            [0..<4 * length ?ds] @ [4 * length ?ds..<4 * length ?ds + (length fs - 4 * length ?ds)]"
      by (rule upt_add_eq_append) simp
    with True have "[0..<length fs] = [0..<?m] @ [4 * length ?ds..<length fs]"
      by (simp add: min_absorb1)
    then show ?thesis by (simp add: filter_bits_beyond)
  next
    case False
    then show ?thesis by (simp add: min_absorb2)
  qed
  finally show ?thesis by (simp add: namesAtSetBits_def)
qed

lemma parseFieldBitmaps_loop:
  "parseFieldBitmaps allFields (first # rest) =
     (if rest \<noteq> [] \<and> CHR ''-'' \<in> set (last rest)
      then forEachBitmap allFields (first # rest)
             (if startsWith first ''0x'' then getFieldNamesFromBitmap allFields first else [])
      else Inr (if startsWith first ''0x'' then getFieldNamesFromBitmap allFields first else []))"
proof -
  have z: "(first # rest) ! 0 = first"
    by simp
  have l: "(first # rest) ! (length (first # rest) - 1) = (if rest = [] then first else last rest)"
    by (simp add: last_conv_nth nth_Cons')
  show ?thesis
    unfolding parseFieldBitmaps_def Let_def z l contains_char_def
    by (simp del: forEachBitmap.simps)
qed

lemma parseFieldBitmaps_cons:
  "parseFieldBitmaps allFields (first # rest) =
     (let top = (if startsWith first ''0x'' then getFieldNamesFromBitmap allFields first else [])
      in if rest \<noteq> [] \<and> CHR ''-'' \<in> set (last rest)
         then (case collect (map (pairNames allFields) (first # rest)) of
                 Inl e \<Rightarrow> Inl e
               | Inr groups \<Rightarrow> Inr (top @ concat groups))
         else Inr top)"
  unfolding parseFieldBitmaps_loop forEachBitmap_collect Let_def ..

text \<open>
  C6 (as amended). The resolver maps the empty sequence to the empty result. For a first
  entry \<open>0x\<close> followed by upper-case hexadecimal digits, the names the entry gives are
  exactly the names of the fields at the set bits of the number the digits denote, at
  positions below the field count, in the order of declaration: they are the whole
  result when no parent-child entries follow (no further entry, or a last entry without
  \<open>-\<close>), and the leading part of the result otherwise.
\<close>

theorem parseFieldBitmaps_top_level:
  "parseFieldBitmaps allFields [] = Inr [] \<and>
   (list_all isUpperHexDigit ds \<longrightarrow>
      (rest = [] \<or> CHR ''-'' \<notin> set (last rest) \<longrightarrow>
         parseFieldBitmaps allFields ((''0x'' @ ds) # rest)
           = Inr (namesAtSetBits allFields (hexValue ds))) \<and>
      (\<forall>names. parseFieldBitmaps allFields ((''0x'' @ ds) # rest) = Inr names \<longrightarrow>
         take (length (namesAtSetBits allFields (hexValue ds))) names
           = namesAtSetBits allFields (hexValue ds)))"
proof (intro conjI impI allI)
  show "parseFieldBitmaps allFields [] = Inr []"
    by (simp add: parseFieldBitmaps_def)
next
  assume ds: "list_all isUpperHexDigit ds"
  have top: "getFieldNamesFromBitmap allFields (''0x'' @ ds) = namesAtSetBits allFields (hexValue ds)"
    using getFieldNamesFromBitmap_bits [of "''0x'' @ ds" allFields] ds by simp
  have sw: "startsWith (''0x'' @ ds) ''0x''"
    by (simp add: startsWith_def)
  {
    assume "rest = [] \<or> CHR ''-'' \<notin> set (last rest)"
    then show "parseFieldBitmaps allFields ((''0x'' @ ds) # rest)
                 = Inr (namesAtSetBits allFields (hexValue ds))"
      unfolding parseFieldBitmaps_cons using sw top by (auto simp: Let_def)
  }
  {
    fix names
    assume "parseFieldBitmaps allFields ((''0x'' @ ds) # rest) = Inr names"
    then show "take (length (namesAtSetBits allFields (hexValue ds))) names
                 = namesAtSetBits allFields (hexValue ds)"
      unfolding parseFieldBitmaps_cons using sw top
      by (auto simp: Let_def split: if_splits sum.splits)
  }
qed

theorem parseFieldBitmaps_top_level_witness:
  "list_all isUpperHexDigit ''5'' \<and>
   parseFieldBitmaps exampleFields [''0x5''] = Inr [''Id'', ''Phone'']"
proof -
  have h: "list_all isUpperHexDigit ''5''"
    by (simp add: isUpperHexDigit_def)
  have v: "namesAtSetBits exampleFields (hexValue ''5'') = [''Id'', ''Phone'']"
    by code_simp
  from parseFieldBitmaps_top_level [of exampleFields "''5''" "[]"] h
  have "parseFieldBitmaps exampleFields [''0x5''] = Inr (namesAtSetBits exampleFields (hexValue ''5''))"
    by simp
  with h v show ?thesis by simp
qed

theorem parseFieldBitmaps_top_level_counterexample:
  "parseFieldBitmaps exampleFields [''0xa''] = Inr [] \<and>
   namesAtSetBits exampleFields (hexValue ''a'') = [''Name'', ''Email''] \<and>
   parseFieldBitmaps exampleFields [''0x1'', ''1-0x3'']
     = Inr [''Id'', ''Name.FirstName'', ''Name.LastName''] \<and>
   namesAtSetBits exampleFields (hexValue ''1'') = [''Id'']"
  by code_simp

text \<open>
  C5 (as amended). For every bitmap sequence of more than one entry whose last entry
  contains a \<open>-\<close>, the resolver treats the sequence as parent-child pairs: after the names
  of the first entry (when it starts with \<open>0x\<close>), it gives for each pair in turn the names
  that the child bitmap selects among the fields of the record branches of the parent's
  type, each prefixed with the parent's name and a dot; the parent is the field at the
  pair's index in the top-level fields, and its type has to be a union: a pair whose
  parent does not resolve or is of another type, a record type included, throws. A
  sequence of exactly one entry is never treated as a pair: its result is the names of
  the entry as a top-level bitmap when it starts with \<open>0x\<close>, and empty otherwise.
\<close>

theorem parseFieldBitmaps_parent_child:
  "parseFieldBitmaps allFields [entry]
     = Inr (if startsWith entry ''0x'' then getFieldNamesFromBitmap allFields entry else []) \<and>
   (1 < length bitmaps \<and> CHR ''-'' \<in> set (last bitmaps) \<longrightarrow>
      parseFieldBitmaps allFields bitmaps =
        (case collect (map (pairNames allFields) bitmaps) of
           Inl e \<Rightarrow> Inl e
         | Inr groups \<Rightarrow>
             Inr ((if startsWith (hd bitmaps) ''0x''
                   then getFieldNamesFromBitmap allFields (hd bitmaps) else [])
                  @ concat groups)))"
proof (intro conjI impI)
  show "parseFieldBitmaps allFields [entry]
     = Inr (if startsWith entry ''0x'' then getFieldNamesFromBitmap allFields entry else [])"
    by (simp add: parseFieldBitmaps_loop)
next
  assume h: "1 < length bitmaps \<and> CHR ''-'' \<in> set (last bitmaps)"
  then obtain first rest where b: "bitmaps = first # rest" and r: "rest \<noteq> []"
    by (cases bitmaps) auto
  from h b r have "CHR ''-'' \<in> set (last rest)" by simp
  with r show "parseFieldBitmaps allFields bitmaps =
        (case collect (map (pairNames allFields) bitmaps) of
           Inl e \<Rightarrow> Inl e
         | Inr groups \<Rightarrow>
             Inr ((if startsWith (hd bitmaps) ''0x''
                   then getFieldNamesFromBitmap allFields (hd bitmaps) else [])
                  @ concat groups))"
    unfolding b list.sel parseFieldBitmaps_cons Let_def by simp
qed

theorem parseFieldBitmaps_parent_child_witness:
  "parseFieldBitmaps exampleFields [''0x5'', ''1-0x3'']
     = Inr [''Id'', ''Phone'', ''Name.FirstName'', ''Name.LastName'']"
proof -
  have c: "collect (map (pairNames exampleFields) [''0x5'', ''1-0x3''])
             = Inr [[], [''Name.FirstName'', ''Name.LastName'']]"
    by code_simp
  have t: "getFieldNamesFromBitmap exampleFields ''0x5'' = [''Id'', ''Phone'']"
    by code_simp
  from parseFieldBitmaps_parent_child [of exampleFields "''0x5''" "[''0x5'', ''1-0x3'']"]
  show ?thesis
    unfolding c by (simp add: t startsWith_def)
qed

theorem parseFieldBitmaps_single_pair_counterexample:
  "parseFieldBitmaps exampleFields [''1-0x3''] = Inr [] \<and>
   pairNames exampleFields ''1-0x3'' = Inr [''Name.FirstName'', ''Name.LastName''] \<and>
   parseFieldBitmaps
     [AvroField ''Id'' OtherType,
      AvroField ''Owner'' (RecordType [AvroField ''FirstName'' OtherType])]
     [''0x1'', ''1-0x1''] = Inl TypeError"
  by code_simp

text \<open>The index of a pair is read as \<open>parseInt\<close> reads it: white space before it, the
  no-break space included, is skipped.\<close>

lemma parseFieldBitmaps_no_break_space:
  "parseFieldBitmaps exampleFields [''0x1'', CHR 0xA0 # ''1-0x3'']
     = Inr [''Id'', ''Name.FirstName'', ''Name.LastName'']"
  by code_simp

section \<open>Lower-case digits\<close>

lemma length_filter_nth:
  "length (filter (\<lambda>j. xs ! j = a) [0..<length xs]) = length (filter (\<lambda>x. x = a) xs)"
proof -
  have "filter (\<lambda>x. x = a) (map ((!) xs) [0..<length xs])
          = map ((!) xs) (filter ((\<lambda>x. x = a) \<circ> (!) xs) [0..<length xs])"
    by (rule filter_map)
  then have "length (filter (\<lambda>x. x = a) xs) = length (filter ((\<lambda>x. x = a) \<circ> (!) xs) [0..<length xs])"
    by (simp add: map_nth)
  then show ?thesis by (simp add: o_def)
qed

lemma sum_list_strict:
  fixes f g :: "'a \<Rightarrow> nat"
  shows "list_all (\<lambda>d. f d \<le> g d) ds \<Longrightarrow> list_ex (\<lambda>d. f d < g d) ds \<Longrightarrow>
         sum_list (map f ds) < sum_list (map g ds)"
proof (induction ds)
  case Nil
  then show ?case by simp
next
  case (Cons d ds)
  have le: "sum_list (map f ds) \<le> sum_list (map g ds)"
    using Cons.prems(1) by (auto simp: list_all_iff intro: sum_list_mono)
  show ?case
  proof (cases "f d < g d")
    case True
    with le show ?thesis by simp
  next
    case False
    with Cons.prems have "list_ex (\<lambda>d. f d < g d) ds" and "f d \<le> g d" by simp_all
    with Cons.IH Cons.prems(1) show ?thesis by simp
  qed
qed

lemma ones_upper_table:
  "\<forall>c\<in>set ''0123456789ABCDEF''.
     length (digitBits c) = 4 \<and>
     length (filter (\<lambda>x. x = CHR ''1'') (digitBits c))
       = length (filter (bit (hexDigitValue c)) [0, 1, 2, 3])"
  by (simp add: digitBits_def hexDigitValue_def bit_Suc_0_iff)

lemma ones_lower_table:
  "\<forall>c\<in>set ''abcdef''.
     digitBits c = [c] \<and> c \<noteq> CHR ''1'' \<and>
     0 < length (filter (bit (hexDigitValue c)) [0, 1, 2, 3])"
  by (simp add: digitBits_def hexDigitValue_def bit_Suc_0_iff)

lemma popcount_hexValue:
  "length (filter (bit (hexValue ds)) [0..<4 * length ds])
     = sum_list (map (\<lambda>d. length (filter (bit (hexDigitValue d)) [0..<4])) ds)"
proof (induction ds rule: rev_induct)
  case Nil
  then show ?case by simp
next
  case (snoc d ds)
  have lt: "hexDigitValue d < 16" by (rule hexDigitValue_lt)
  have low: "filter (bit (hexValue (ds @ [d]))) [0..<4] = filter (bit (hexDigitValue d)) [0..<4]"
    by (rule filter_cong) (simp_all add: hexValue_snoc bit_hex_nat [OF lt])
  have high: "filter (bit (hexValue (ds @ [d]))) (map (\<lambda>i. i + 4) [0..<4 * length ds])
                = map (\<lambda>i. i + 4) (filter (bit (hexValue ds)) [0..<4 * length ds])"
    by (simp add: filter_map o_def hexValue_snoc bit_hex_nat [OF lt])
  have "[0..<4 * length (ds @ [d])] = [0..<4] @ map (\<lambda>i. i + 4) [0..<4 * length ds]"
    using upt_nibbles [of "length ds"] by simp
  then have "length (filter (bit (hexValue (ds @ [d]))) [0..<4 * length (ds @ [d])])
               = length (filter (bit (hexDigitValue d)) [0..<4])
                 + length (filter (bit (hexValue ds)) [0..<4 * length ds])"
    by (simp only: filter_append low high length_append length_map)
  with snoc.IH show ?case by simp
qed

lemma bit_below_bound:
  fixes v :: nat
  shows "v < 2 ^ n \<Longrightarrow> bit v i \<Longrightarrow> i < n"
proof (rule ccontr)
  assume v: "v < 2 ^ n" and b: "bit v i" and "\<not> i < n"
  then have "(2::nat) ^ n \<le> 2 ^ i" by simp
  with v have "v < 2 ^ i" by (rule less_le_trans)
  then have "\<not> bit v i" by (simp add: bit_iff_odd)
  with b show False by simp
qed

lemma filter_bits_extend:
  fixes v :: nat
  assumes "\<And>i. bit v i \<Longrightarrow> i < n"
  shows "filter (bit v) [0..<n + k] = filter (bit v) [0..<n]"
proof -
  have "[0..<n + k] = [0..<n] @ [n..<n + k]"
    by (rule upt_add_eq_append) simp
  moreover have "filter (bit v) [n..<n + k] = []"
    using assms by (fastforce simp: filter_empty_conv)
  ultimately show ?thesis by simp
qed

lemma length_namesAtSetBits:
  assumes "hexValue ds < 2 ^ length fs"
  shows "length (namesAtSetBits fs (hexValue ds))
           = sum_list (map (\<lambda>d. length (filter (bit (hexDigitValue d)) [0..<4])) ds)"
proof -
  have "filter (bit (hexValue ds)) [0..<length fs + 4 * length ds]
          = filter (bit (hexValue ds)) [0..<length fs]"
    using assms by (intro filter_bits_extend) (rule bit_below_bound)
  moreover have "filter (bit (hexValue ds)) [0..<4 * length ds + length fs]
          = filter (bit (hexValue ds)) [0..<4 * length ds]"
    by (intro filter_bits_extend) (rule bit_hexValue_bound)
  ultimately have "filter (bit (hexValue ds)) [0..<length fs]
          = filter (bit (hexValue ds)) [0..<4 * length ds]"
    by (simp add: add.commute)
  then show ?thesis
    by (simp add: namesAtSetBits_def popcount_hexValue)
qed

lemma length_getFieldNamesFromBitmap_le:
  "length (getFieldNamesFromBitmap fs hex)
     \<le> sum_list (map (\<lambda>d. length (filter (\<lambda>x. x = CHR ''1'') (digitBits d))) (drop 2 hex))"
proof -
  let ?bin = "rev (hexToBin hex)"
  let ?m = "min (length ?bin) (length fs)"
  have "[0..<?m + (length ?bin - ?m)] = [0..<?m] @ [?m..<?m + (length ?bin - ?m)]"
    by (rule upt_add_eq_append) simp
  then have "[0..<length ?bin] = [0..<?m] @ [?m..<length ?bin]"
    by simp
  then have "length (filter (\<lambda>j. ?bin ! j = CHR ''1'') [0..<?m])
               \<le> length (filter (\<lambda>j. ?bin ! j = CHR ''1'') [0..<length ?bin])"
    by (metis filter_append le_add1 length_append)
  also have "\<dots> = length (filter (\<lambda>x. x = CHR ''1'') ?bin)"
    by (rule length_filter_nth)
  also have "\<dots> = length (filter (\<lambda>x. x = CHR ''1'') (hexToBin hex))"
    by (simp add: rev_filter [symmetric])
  also have "\<dots> = sum_list (map (\<lambda>d. length (filter (\<lambda>x. x = CHR ''1'') (digitBits d))) (drop 2 hex))"
    by (simp add: hexToBin_map filter_concat length_concat o_def)
  finally show ?thesis
    by (simp add: getFieldNamesFromBitmap_eq)
qed

lemma distinct_selected_names:
  assumes "distinct (map getName fs)" and "n \<le> length fs"
  shows "distinct (map (\<lambda>j. getName (fs ! j)) (filter P [0..<n]))"
proof -
  have "inj_on (\<lambda>j. getName (fs ! j)) (set (filter P [0..<n]))"
  proof (rule inj_onI)
    fix i j
    assume "i \<in> set (filter P [0..<n])" and "j \<in> set (filter P [0..<n])"
      and eq: "getName (fs ! i) = getName (fs ! j)"
    with assms(2) have i: "i < length (map getName fs)" and j: "j < length (map getName fs)"
      by simp_all
    from eq i j have "map getName fs ! i = map getName fs ! j" by simp
    with nth_eq_iff_index_eq [OF assms(1) i j] show "i = j" by blast
  qed
  then show ?thesis by (simp add: distinct_map)
qed

lemma ones_hex_digit:
  assumes "isUpperHexDigit d \<or> isLowerHexLetter d"
  shows "length (filter (\<lambda>x. x = CHR ''1'') (digitBits d))
           \<le> length (filter (bit (hexDigitValue d)) [0..<4])"
    and "isLowerHexLetter d \<Longrightarrow>
         length (filter (\<lambda>x. x = CHR ''1'') (digitBits d))
           < length (filter (bit (hexDigitValue d)) [0..<4])"
proof -
  show "length (filter (\<lambda>x. x = CHR ''1'') (digitBits d))
           \<le> length (filter (bit (hexDigitValue d)) [0..<4])"
  proof (cases "isUpperHexDigit d")
    case True
    with ones_upper_table show ?thesis
      unfolding upt_4 isUpperHexDigit_def by fastforce
  next
    case False
    with assms have "isLowerHexLetter d" by simp
    with ones_lower_table have "digitBits d = [d]" and "d \<noteq> CHR ''1''"
      unfolding isLowerHexLetter_def by blast+
    then show ?thesis by simp
  qed
next
  assume "isLowerHexLetter d"
  with ones_lower_table have "digitBits d = [d]" and "d \<noteq> CHR ''1''"
    and "0 < length (filter (bit (hexDigitValue d)) [0, 1, 2, 3])"
    unfolding isLowerHexLetter_def by blast+
  then show "length (filter (\<lambda>x. x = CHR ''1'') (digitBits d))
           < length (filter (bit (hexDigitValue d)) [0..<4])"
    unfolding upt_4 by simp
qed

lemma fewer_names_with_lower_case:
  assumes hex: "list_all (\<lambda>d. isUpperHexDigit d \<or> isLowerHexLetter d) ds"
    and lower: "list_ex isLowerHexLetter ds"
    and enough: "hexValue ds < 2 ^ length fs"
  shows "length (getFieldNamesFromBitmap fs (''0x'' @ ds)) < length (namesAtSetBits fs (hexValue ds))"
proof -
  let ?ones = "\<lambda>d. length (filter (\<lambda>x. x = CHR ''1'') (digitBits d))"
  let ?pop = "\<lambda>d. length (filter (bit (hexDigitValue d)) [0..<4])"
  have code: "length (getFieldNamesFromBitmap fs (''0x'' @ ds)) \<le> sum_list (map ?ones ds)"
    using length_getFieldNamesFromBitmap_le [of fs "''0x'' @ ds"] by simp
  have spec: "length (namesAtSetBits fs (hexValue ds)) = sum_list (map ?pop ds)"
    using enough by (rule length_namesAtSetBits)
  have le: "list_all (\<lambda>d. ?ones d \<le> ?pop d) ds"
    using hex by (simp add: list_all_iff ones_hex_digit(1))
  have lt: "list_ex (\<lambda>d. ?ones d < ?pop d) ds"
    using lower by (auto simp: list_ex_iff intro: ones_hex_digit(2))
  from le lt have "sum_list (map ?ones ds) < sum_list (map ?pop ds)"
    by (rule sum_list_strict)
  with code spec show ?thesis by simp
qed

text \<open>
  C10 (as amended). \<open>hexToBin\<close> expands the upper-case hexadecimal digits \<open>0\<close>-\<open>9\<close> and
  \<open>A\<close>-\<open>F\<close> into four bits each and leaves every other character as it is, so a lower-case
  letter \<open>a\<close>-\<open>f\<close> stays one character of the bit string, which is never a set bit. For a
  bitmap of hexadecimal digits with a lower-case letter among them, all of whose set bits
  denote fields (the number it denotes is below two to the field count), the resolver
  gives fewer names than the semantics of four bits for each digit, and a different set
  of names when the field names are distinct.
\<close>

theorem hexToBin_upper_case_only:
  "hexToBin hex = concat (map digitBits (drop 2 hex)) \<and>
   (isUpperHexDigit c \<longrightarrow> length (digitBits c) = 4) \<and>
   (\<not> isUpperHexDigit c \<longrightarrow> digitBits c = [c]) \<and>
   (isLowerHexLetter c \<longrightarrow> digitBits c = [c]) \<and>
   (list_all (\<lambda>d. isUpperHexDigit d \<or> isLowerHexLetter d) ds \<and> list_ex isLowerHexLetter ds \<and>
    hexValue ds < 2 ^ length fs \<longrightarrow>
      length (getFieldNamesFromBitmap fs (''0x'' @ ds)) < length (namesAtSetBits fs (hexValue ds)) \<and>
      (distinct (map getName fs) \<longrightarrow>
         set (getFieldNamesFromBitmap fs (''0x'' @ ds)) \<noteq> set (namesAtSetBits fs (hexValue ds))))"
proof (intro conjI impI)
  show "hexToBin hex = concat (map digitBits (drop 2 hex))"
    by (rule hexToBin_map)
next
  assume "isUpperHexDigit c"
  with ones_upper_table show "length (digitBits c) = 4"
    unfolding isUpperHexDigit_def by blast
next
  assume "\<not> isUpperHexDigit c"
  then show "digitBits c = [c]"
    by (simp add: isUpperHexDigit_def digitBits_def)
next
  assume "isLowerHexLetter c"
  with ones_lower_table show "digitBits c = [c]"
    unfolding isLowerHexLetter_def by blast
next
  assume h: "list_all (\<lambda>d. isUpperHexDigit d \<or> isLowerHexLetter d) ds \<and> list_ex isLowerHexLetter ds \<and>
    hexValue ds < 2 ^ length fs"
  then show lt: "length (getFieldNamesFromBitmap fs (''0x'' @ ds)) < length (namesAtSetBits fs (hexValue ds))"
    using fewer_names_with_lower_case by blast
  assume d: "distinct (map getName fs)"
  have "distinct (getFieldNamesFromBitmap fs (''0x'' @ ds))"
    unfolding getFieldNamesFromBitmap_eq using d by (rule distinct_selected_names) simp
  then have c1: "card (set (getFieldNamesFromBitmap fs (''0x'' @ ds)))
                   = length (getFieldNamesFromBitmap fs (''0x'' @ ds))"
    by (rule distinct_card)
  have "distinct (namesAtSetBits fs (hexValue ds))"
    unfolding namesAtSetBits_def using d by (rule distinct_selected_names) simp
  then have c2: "card (set (namesAtSetBits fs (hexValue ds))) = length (namesAtSetBits fs (hexValue ds))"
    by (rule distinct_card)
  from lt c1 c2 show "set (getFieldNamesFromBitmap fs (''0x'' @ ds)) \<noteq> set (namesAtSetBits fs (hexValue ds))"
    by auto
qed

theorem hexToBin_upper_case_only_witness:
  "isUpperHexDigit CHR ''B'' \<and> isLowerHexLetter CHR ''b'' \<and> \<not> isUpperHexDigit CHR ''b'' \<and>
   list_all (\<lambda>d. isUpperHexDigit d \<or> isLowerHexLetter d) ''b'' \<and> list_ex isLowerHexLetter ''b'' \<and>
   hexValue ''b'' < 2 ^ length exampleFields \<and> distinct (map getName exampleFields) \<and>
   digitBits CHR ''b'' = ''b'' \<and>
   length (getFieldNamesFromBitmap exampleFields ''0xb'')
     < length (namesAtSetBits exampleFields (hexValue ''b'')) \<and>
   set (getFieldNamesFromBitmap exampleFields ''0xb'')
     \<noteq> set (namesAtSetBits exampleFields (hexValue ''b''))"
proof -
  have h: "isUpperHexDigit CHR ''B''" "isLowerHexLetter CHR ''b''" "\<not> isUpperHexDigit CHR ''b''"
    "list_all (\<lambda>d. isUpperHexDigit d \<or> isLowerHexLetter d) ''b''" "list_ex isLowerHexLetter ''b''"
    "hexValue ''b'' < 2 ^ length exampleFields" "distinct (map getName exampleFields)"
    by (simp_all add: isUpperHexDigit_def isLowerHexLetter_def exampleFields_def hexValue_def
          hexDigitValue_def)
  with hexToBin_upper_case_only [of "''0xb''" "CHR ''b''" "''b''" exampleFields,
      unfolded append_Cons append_Nil]
  show ?thesis by blast
qed

theorem hexToBin_lower_case_same_names_counterexample:
  "list_ex isLowerHexLetter ''Da'' \<and>
   hexToBin ''0xDa'' = ''1101a'' \<and>
   getFieldNamesFromBitmap (exampleFields @ [AvroField ''Fax'' OtherType]) ''0xDa''
     = [''Name'', ''Email'', ''Fax''] \<and>
   namesAtSetBits (exampleFields @ [AvroField ''Fax'' OtherType]) (hexValue ''Da'')
     = [''Name'', ''Email'', ''Fax'']"
  by code_simp

section \<open>Flattening\<close>

lemma flattenSinglePropertyObjects_map:
  "flattenSinglePropertyObjects r =
     map (\<lambda>kv. (fst kv, if fst kv \<noteq> ''ChangeEventHeader'' then replacement (snd kv) else snd kv)) r"
  by (induction r rule: flattenSinglePropertyObjects.induct) simp_all

lemma replacement_not_single: "\<not> isSingleKeyStructure v \<Longrightarrow> replacement v = v"
  by (induction v rule: replacement.induct) simp_all

text \<open>
  C7. Flattening keeps the attributes of the record and their order. The change-event
  header is left as it is; every other attribute whose value is a single-key structure
  gets the inner value of that structure in its place, flattened in turn when it is a
  structure itself; an attribute whose value is not a single-key structure is left as
  it is. So a record with no single-key structure outside the header is unchanged.
\<close>

theorem flattenSinglePropertyObjects_attributes:
  "map fst (flattenSinglePropertyObjects r) = map fst r \<and>
   (\<forall>i<length r.
      (fst (r ! i) = ''ChangeEventHeader'' \<longrightarrow> flattenSinglePropertyObjects r ! i = r ! i) \<and>
      (fst (r ! i) \<noteq> ''ChangeEventHeader'' \<longrightarrow>
         (\<forall>subKey subValue. snd (r ! i) = Object [(subKey, subValue)] \<longrightarrow>
            flattenSinglePropertyObjects r ! i = (fst (r ! i), flattened subValue))) \<and>
      (\<not> isSingleKeyStructure (snd (r ! i)) \<longrightarrow> flattenSinglePropertyObjects r ! i = r ! i)) \<and>
   (list_all (\<lambda>kv. fst kv = ''ChangeEventHeader'' \<or> \<not> isSingleKeyStructure (snd kv)) r \<longrightarrow>
      flattenSinglePropertyObjects r = r)"
proof (intro conjI allI impI)
  show "map fst (flattenSinglePropertyObjects r) = map fst r"
    by (simp add: flattenSinglePropertyObjects_map o_def)
next
  fix i
  assume "i < length r" and "fst (r ! i) = ''ChangeEventHeader''"
  then show "flattenSinglePropertyObjects r ! i = r ! i"
    by (simp add: flattenSinglePropertyObjects_map prod_eq_iff)
next
  fix i subKey subValue
  assume "i < length r" and "fst (r ! i) \<noteq> ''ChangeEventHeader''"
    and "snd (r ! i) = Object [(subKey, subValue)]"
  then show "flattenSinglePropertyObjects r ! i = (fst (r ! i), flattened subValue)"
    by (simp add: flattenSinglePropertyObjects_map prod_eq_iff)
next
  fix i
  assume "i < length r" and "\<not> isSingleKeyStructure (snd (r ! i))"
  then show "flattenSinglePropertyObjects r ! i = r ! i"
    by (simp add: flattenSinglePropertyObjects_map replacement_not_single prod_eq_iff)
next
  assume "list_all (\<lambda>kv. fst kv = ''ChangeEventHeader'' \<or> \<not> isSingleKeyStructure (snd kv)) r"
  then have "map (\<lambda>kv. (fst kv, if fst kv \<noteq> ''ChangeEventHeader'' then replacement (snd kv) else snd kv)) r
               = map (\<lambda>kv. kv) r"
    by (intro map_cong) (auto simp: list_all_iff replacement_not_single prod_eq_iff)
  then show "flattenSinglePropertyObjects r = r"
    by (simp add: flattenSinglePropertyObjects_map)
qed

theorem flattenSinglePropertyObjects_attributes_witness:
  "flattenSinglePropertyObjects exampleRecord ! 0 = exampleRecord ! 0 \<and>
   flattenSinglePropertyObjects exampleRecord ! 1 = (''FirstName'', Primitive 5) \<and>
   flattenSinglePropertyObjects exampleRecord ! 2
     = (''Address'', Object [(''City'', Primitive 7), (''Zip'', Null)]) \<and>
   flattenSinglePropertyObjects exampleRecord ! 3 = exampleRecord ! 3 \<and>
   flattenSinglePropertyObjects [(''Amount'', Primitive (9::nat)), (''Zip'', Null)]
     = [(''Amount'', Primitive 9), (''Zip'', Null)]"
  using flattenSinglePropertyObjects_attributes [of exampleRecord]
    flattenSinglePropertyObjects_attributes [of "[(''Amount'', Primitive (9::nat)), (''Zip'', Null)]"]
  by (simp add: exampleRecord_def)

section \<open>User-supplied authentication\<close>

lemma split_first_segment:
  "(case split token c of [] \<Rightarrow> Inl TypeError | segment # _ \<Rightarrow> Inr segment)
     = (Inr (takeWhile (\<lambda>x. x \<noteq> c) token) :: js_error + string)"
proof (cases "split token c")
  case Nil
  with split_nonempty [of token c] show ?thesis by simp
next
  case (Cons segment segments)
  with split_hd [of token c] show ?thesis by simp
qed

text \<open>
  C9. \<open>connectWithAuth\<close> fails when the instance URL does not start with \<open>https://\<close>.
  With a secure URL and no organization id supplied, the id is the first segment of the
  access token split at \<open>!\<close>; otherwise it is the supplied id. The call fails when the
  length of that id is neither 15 nor 18, and goes on with the access token, the URL and
  that id otherwise. (With neither an id nor a token it fails as well.)
\<close>

theorem connectWithAuth_validation:
  "((\<forall>u. url = Some u \<longrightarrow> \<not> startsWith u ''https://'') \<longrightarrow>
      connectWithAuth token url org = Inl (InvalidInstanceUrl url)) \<and>
   (url = Some u \<and> startsWith u ''https://'' \<longrightarrow>
      (falsy org \<and> token = Some t \<longrightarrow>
         connectWithAuth token url org =
           (let derived = takeWhile (\<lambda>c. c \<noteq> CHR ''!'') t
            in if length derived = 15 \<or> length derived = 18
               then Inr \<lparr>accessToken = token, instanceUrl = u, organizationId = derived\<rparr>
               else Inl (InvalidOrgId derived))) \<and>
      (falsy org \<and> token = None \<longrightarrow>
         connectWithAuth token url org = Inl UnableToParseOrganizationId) \<and>
      (org = Some supplied \<and> supplied \<noteq> [] \<longrightarrow>
         connectWithAuth token url org =
           (if length supplied = 15 \<or> length supplied = 18
            then Inr \<lparr>accessToken = token, instanceUrl = u, organizationId = supplied\<rparr>
            else Inl (InvalidOrgId supplied))))"
proof (intro conjI impI)
  assume "\<forall>u. url = Some u \<longrightarrow> \<not> startsWith u ''https://''"
  then show "connectWithAuth token url org = Inl (InvalidInstanceUrl url)"
    by (cases url) (simp_all add: connectWithAuth_def)
next
  assume u: "url = Some u \<and> startsWith u ''https://''"
  then have ne: "u \<noteq> []" by (auto simp: startsWith_def)
  {
    assume "falsy org \<and> token = Some t"
    with u ne show "connectWithAuth token url org =
           (let derived = takeWhile (\<lambda>c. c \<noteq> CHR ''!'') t
            in if length derived = 15 \<or> length derived = 18
               then Inr \<lparr>accessToken = token, instanceUrl = u, organizationId = derived\<rparr>
               else Inl (InvalidOrgId derived))"
      by (simp add: connectWithAuth_def split_first_segment Let_def)
  }
  {
    assume "falsy org \<and> token = None"
    with u ne show "connectWithAuth token url org = Inl UnableToParseOrganizationId"
      by (simp add: connectWithAuth_def)
  }
  {
    assume "org = Some supplied \<and> supplied \<noteq> []"
    with u ne show "connectWithAuth token url org =
           (if length supplied = 15 \<or> length supplied = 18
            then Inr \<lparr>accessToken = token, instanceUrl = u, organizationId = supplied\<rparr>
            else Inl (InvalidOrgId supplied))"
      by (simp add: connectWithAuth_def falsy_def)
  }
qed

theorem connectWithAuth_validation_witness:
  "connectWithAuth (Some ''00Dxx0000!abc'') (Some ''https://example.my.salesforce.com'') None
     = Inl (InvalidOrgId ''00Dxx0000'') \<and>
   connectWithAuth (Some ''00Dxx0000000001!abc'') (Some ''https://example.my.salesforce.com'') None
     = Inr \<lparr>accessToken = Some ''00Dxx0000000001!abc'',
            instanceUrl = ''https://example.my.salesforce.com'',
            organizationId = ''00Dxx0000000001''\<rparr> \<and>
   connectWithAuth (Some ''t'') (Some ''https://example.my.salesforce.com'') (Some ''00Dxx00000000012'')
     = Inl (InvalidOrgId ''00Dxx00000000012'') \<and>
   connectWithAuth (Some ''t'') (Some ''https://example.my.salesforce.com'') (Some ''00Dxx0000000001AAA'')
     = Inr \<lparr>accessToken = Some ''t'',
            instanceUrl = ''https://example.my.salesforce.com'',
            organizationId = ''00Dxx0000000001AAA''\<rparr> \<and>
   connectWithAuth (Some ''00Dxx0000000001!abc'') (Some ''http://example.my.salesforce.com'') None
     = Inl (InvalidInstanceUrl (Some ''http://example.my.salesforce.com'')) \<and>
   connectWithAuth None (Some ''https://example.my.salesforce.com'') None
     = Inl UnableToParseOrganizationId"
  using connectWithAuth_validation
          [of "Some ''https://example.my.salesforce.com''" "Some ''00Dxx0000!abc''" None
              "''https://example.my.salesforce.com''" "''00Dxx0000!abc''"]
        connectWithAuth_validation
          [of "Some ''https://example.my.salesforce.com''" "Some ''00Dxx0000000001!abc''" None
              "''https://example.my.salesforce.com''" "''00Dxx0000000001!abc''"]
        connectWithAuth_validation
          [of "Some ''https://example.my.salesforce.com''" "Some ''t''" "Some ''00Dxx00000000012''"
              "''https://example.my.salesforce.com''" "''t''" "''00Dxx00000000012''"]
        connectWithAuth_validation
          [of "Some ''https://example.my.salesforce.com''" "Some ''t''" "Some ''00Dxx0000000001AAA''"
              "''https://example.my.salesforce.com''" "''t''" "''00Dxx0000000001AAA''"]
        connectWithAuth_validation
          [of "Some ''http://example.my.salesforce.com''" "Some ''00Dxx0000000001!abc''" None]
        connectWithAuth_validation
          [of "Some ''https://example.my.salesforce.com''" None None
              "''https://example.my.salesforce.com''"]
  by (simp add: startsWith_def falsy_def)

section \<open>The custom long type\<close>

lemma compare_same_representation:
  "compare (Number a) (Number b) = sgn (a - b)" "compare (BigInt a) (BigInt b) = sgn (a - b)"
  by (simp_all add: compare_def sgn_if)

lemma compare_different_values:
  "bigIntOf n1 \<noteq> bigIntOf n2 \<Longrightarrow> compare n1 n2 = sgn (bigIntOf n1 - bigIntOf n2)"
  by (cases n1; cases n2) (simp_all add: compare_def sgn_if)

text \<open>A number and a bigint of the same value, which \<open>fromBuffer\<close> never gives, are not
  strictly equal: \<open>compare\<close> of the two is 1 in either order.\<close>

lemma compare_number_bigint_same_value:
  "fromJSON (Number 5) = BigInt 5 \<and>
   compare (Number 5) (BigInt 5) = 1 \<and>
   compare (BigInt 5) (Number 5) = 1"
  by (simp add: fromJSON_def compare_def)

section \<open>The replay cursor\<close>

lemma upt_8: "[0..<8] = [0, 1, 2, 3, 4, 5, 6, 7::nat]"
  by (simp add: upt_rec)

lemma roundToDouble_safe: "\<bar>v\<bar> < 2 ^ 53 \<Longrightarrow> roundToDouble v = v"
  by (auto simp: roundToDouble_def Let_def)

lemma div_256_step:
  fixes v :: int
  shows "256 * (v div 256 ^ Suc k) + v div 256 ^ k mod 256 = v div 256 ^ k"
proof -
  have "v div 256 ^ Suc k = v div 256 ^ k div 256"
    by (subst power_Suc2, subst zdiv_zmult2_eq) simp_all
  then show ?thesis by simp
qed

lemma horner_bytes:
  fixes v :: int
  assumes "0 \<le> v" and "v < 2 ^ 64"
  shows "256 * (256 * (256 * (256 * (256 * (256 * (256 * (v div 256 ^ 7 mod 256)
           + v div 256 ^ 6 mod 256) + v div 256 ^ 5 mod 256) + v div 256 ^ 4 mod 256)
           + v div 256 ^ 3 mod 256) + v div 256 ^ 2 mod 256) + v div 256 ^ 1 mod 256)
           + v div 256 ^ 0 mod 256 = v"
proof -
  from assms have "v div 256 ^ 7 < 256" and "0 \<le> v div 256 ^ 7"
    by (simp_all add: div_less_iff_less_mult)
  then have e7: "v div 256 ^ 7 mod 256 = v div 256 ^ 7"
    by simp
  have e6: "256 * (v div 256 ^ 7) + v div 256 ^ 6 mod 256 = v div 256 ^ 6"
    using div_256_step [of v 6] by simp
  have e5: "256 * (v div 256 ^ 6) + v div 256 ^ 5 mod 256 = v div 256 ^ 5"
    using div_256_step [of v 5] by simp
  have e4: "256 * (v div 256 ^ 5) + v div 256 ^ 4 mod 256 = v div 256 ^ 4"
    using div_256_step [of v 4] by simp
  have e3: "256 * (v div 256 ^ 4) + v div 256 ^ 3 mod 256 = v div 256 ^ 3"
    using div_256_step [of v 3] by simp
  have e2: "256 * (v div 256 ^ 3) + v div 256 ^ 2 mod 256 = v div 256 ^ 2"
    using div_256_step [of v 2] by simp
  have e1: "256 * (v div 256 ^ 2) + v div 256 ^ 1 mod 256 = v div 256 ^ 1"
    using div_256_step [of v 1] by simp
  have e0: "256 * (v div 256 ^ 1) + v div 256 ^ 0 mod 256 = v"
    using div_256_step [of v 0] by simp
  show ?thesis
    by (simp only: e7 e6 e5 e4 e3 e2 e1 e0)
qed

lemma writeBigUInt64BE_bytes:
  assumes "0 \<le> v" and "v < 2 ^ 64"
  shows "writeBigUInt64BE v =
           Inr [word_of_int (v div 256 ^ 7), word_of_int (v div 256 ^ 6),
                word_of_int (v div 256 ^ 5), word_of_int (v div 256 ^ 4),
                word_of_int (v div 256 ^ 3), word_of_int (v div 256 ^ 2),
                word_of_int (v div 256 ^ 1), word_of_int (v div 256 ^ 0)]"
  using assms unfolding writeBigUInt64BE_def upt_8 by simp

lemma readBigUInt64BE_bytes:
  assumes "0 \<le> v" and "v < 2 ^ 64"
  shows "readBigUInt64BE
           [word_of_int (v div 256 ^ 7), word_of_int (v div 256 ^ 6),
            word_of_int (v div 256 ^ 5), word_of_int (v div 256 ^ 4),
            word_of_int (v div 256 ^ 3), word_of_int (v div 256 ^ 2),
            word_of_int (v div 256 ^ 1), word_of_int (v div 256 ^ 0)] = Inr v"
    (is "readBigUInt64BE ?bs = Inr v")
proof -
  have u: "uint (word_of_int k :: byte) = k mod 256" for k
    by (simp add: uint_word_of_int)
  have fl: "foldl (\<lambda>acc b. 256 * acc + uint b) 0 ?bs = v"
    by (simp only: foldl.simps u mult_zero_right add_0_left horner_bytes [OF assms])
  have len: "\<not> length ?bs < 8"
    by simp
  have tk: "take 8 ?bs = ?bs"
    by simp
  show ?thesis
    unfolding readBigUInt64BE_def by (simp only: len tk fl if_False)
qed

text \<open>
  C2 (as amended). For every unsigned 64-bit integer \<open>n\<close>, given as a number or as a
  bigint, \<open>encodeReplayId\<close> gives exactly eight bytes, the most significant first, and
  \<open>decodeReplayId\<close> of them is always a number, never a bigint: the double nearest to
  \<open>n\<close>. It is \<open>n\<close> itself for every \<open>n\<close> up to the largest safe integer \<open>2 ^ 53 - 1\<close>.
\<close>

theorem replayId_round_trip:
  "0 \<le> n \<and> n < 2 ^ 64 \<and> bigIntOf rid = n \<longrightarrow>
     (\<exists>bs. encodeReplayId rid = Inr bs \<and> length bs = 8 \<and>
           (\<forall>i<8. uint (bs ! i) = n div 256 ^ (7 - i) mod 256) \<and>
           decodeReplayId bs = Inr (Number (roundToDouble n))) \<and>
     (n \<le> MAX_SAFE_INTEGER \<longrightarrow> roundToDouble n = n)"
proof (intro impI conjI)
  assume h: "0 \<le> n \<and> n < 2 ^ 64 \<and> bigIntOf rid = n"
  then have n: "0 \<le> n" "n < 2 ^ 64" and r: "bigIntOf rid = n" by simp_all
  let ?bs = "map (\<lambda>i. word_of_int (n div 256 ^ (7 - i)) :: byte) [0..<8]"
  have enc: "encodeReplayId rid = Inr ?bs"
    using n by (simp add: encodeReplayId_def writeBigUInt64BE_def r)
  have len: "length ?bs = 8" by simp
  have bytes: "\<forall>i<8. uint (?bs ! i) = n div 256 ^ (7 - i) mod 256"
    by (simp add: uint_word_of_int)
  have "Inr ?bs = writeBigUInt64BE n"
    using n by (simp add: writeBigUInt64BE_def)
  then have "readBigUInt64BE ?bs = Inr n"
    using readBigUInt64BE_bytes [OF n] by (simp only: writeBigUInt64BE_bytes [OF n] sum.inject)
  then have dec: "decodeReplayId ?bs = Inr (Number (roundToDouble n))"
    by (simp only: decodeReplayId_def sum.case)
  from enc len bytes dec
  show "\<exists>bs. encodeReplayId rid = Inr bs \<and> length bs = 8 \<and>
           (\<forall>i<8. uint (bs ! i) = n div 256 ^ (7 - i) mod 256) \<and>
           decodeReplayId bs = Inr (Number (roundToDouble n))"
    by blast
  assume "n \<le> MAX_SAFE_INTEGER"
  with n show "roundToDouble n = n"
    by (intro roundToDouble_safe) (simp add: MAX_SAFE_INTEGER_def)
qed

theorem replayId_round_trip_witness:
  "encodeReplayId (Number 7) = Inr [0, 0, 0, 0, 0, 0, 0, 7] \<and>
   decodeReplayId [0, 0, 0, 0, 0, 0, 0, 7] = Inr (Number 7)"
proof -
  have e: "encodeReplayId (Number 7) = Inr [0, 0, 0, 0, 0, 0, 0, 7]"
    by (simp add: encodeReplayId_def writeBigUInt64BE_def upt_8)
  have "(0::int) \<le> 7 \<and> (7::int) < 2 ^ 64 \<and> bigIntOf (Number 7) = 7"
    and s: "(7::int) \<le> MAX_SAFE_INTEGER"
    by (simp_all add: MAX_SAFE_INTEGER_def)
  with replayId_round_trip [of 7 "Number 7"]
  obtain bs where "encodeReplayId (Number 7) = Inr bs"
    and "decodeReplayId bs = Inr (Number (roundToDouble 7))" and "roundToDouble 7 = 7"
    by blast
  with e show ?thesis by simp
qed

lemma bitLength_example: "bitLength 9007199254740993 = 54"
  by (simp add: bitLength.simps)

lemma roundToDouble_example: "roundToDouble 9007199254740993 = 9007199254740992"
  by (simp add: roundToDouble_def Let_def bitLength_example)

lemma readBigUInt64BE_example: "readBigUInt64BE [0, 32, 0, 0, 0, 0, 0, 1] = Inr 9007199254740993"
  by (simp add: readBigUInt64BE_def)

lemma encodeReplayId_example:
  "encodeReplayId (BigInt 9007199254740993) = Inr [0, 32, 0, 0, 0, 0, 0, 1]"
  by (simp add: encodeReplayId_def writeBigUInt64BE_def upt_8)

theorem replayId_round_trip_counterexample:
  "encodeReplayId (BigInt 9007199254740993) = Inr [0, 32, 0, 0, 0, 0, 0, 1] \<and>
   decodeReplayId [0, 32, 0, 0, 0, 0, 0, 1] = Inr (Number 9007199254740992)"
  by (simp add: encodeReplayId_example decodeReplayId_def readBigUInt64BE_example
        roundToDouble_example)

section \<open>The integers of eight bytes\<close>

lemma take_8:
  assumes "8 \<le> length bs"
  shows "take 8 bs = [bs ! 0, bs ! 1, bs ! 2, bs ! 3, bs ! 4, bs ! 5, bs ! 6, bs ! 7]"
proof -
  have "take (Suc (Suc (Suc (Suc (Suc (Suc (Suc (Suc 0)))))))) bs
          = [bs ! 0, bs ! Suc 0, bs ! Suc (Suc 0), bs ! Suc (Suc (Suc 0)),
             bs ! Suc (Suc (Suc (Suc 0))), bs ! Suc (Suc (Suc (Suc (Suc 0)))),
             bs ! Suc (Suc (Suc (Suc (Suc (Suc 0))))),
             bs ! Suc (Suc (Suc (Suc (Suc (Suc (Suc 0))))))]"
  proof -
    from assms have "0 < length bs" "Suc 0 < length bs" "Suc (Suc 0) < length bs"
      "Suc (Suc (Suc 0)) < length bs" "Suc (Suc (Suc (Suc 0))) < length bs"
      "Suc (Suc (Suc (Suc (Suc 0)))) < length bs" "Suc (Suc (Suc (Suc (Suc (Suc 0))))) < length bs"
      "Suc (Suc (Suc (Suc (Suc (Suc (Suc 0)))))) < length bs"
      by auto
    then show ?thesis
      by (simp add: take_Suc_conv_app_nth)
  qed
  then show ?thesis by (simp add: eval_nat_numeral)
qed


lemma readBigInt64LE_value:
  assumes "8 \<le> length buf"
  shows "readBigInt64LE buf = Inr (littleEndianSignedValue buf)"
proof -
  have "foldr (\<lambda>b acc. uint b + 256 * acc)
          [buf ! 0, buf ! 1, buf ! 2, buf ! 3, buf ! 4, buf ! 5, buf ! 6, buf ! 7] 0
          = uint (buf ! 0) + uint (buf ! 1) * 2 ^ 8 + uint (buf ! 2) * 2 ^ 16 +
              uint (buf ! 3) * 2 ^ 24 + uint (buf ! 4) * 2 ^ 32 + uint (buf ! 5) * 2 ^ 40 +
              uint (buf ! 6) * 2 ^ 48 + uint (buf ! 7) * 2 ^ 56"
    by simp
  with assms show ?thesis
    by (simp only: readBigInt64LE_def take_8 [OF assms] littleEndianSignedValue_def Let_def)
       (simp add: not_le not_less)
qed

subsection \<open>Decoded longs\<close>

lemma eight_bytes_bound:
  fixes a0 a1 a2 a3 a4 a5 a6 a7 :: int
  assumes "0 \<le> a0" "a0 < 256" "0 \<le> a1" "a1 < 256" "0 \<le> a2" "a2 < 256" "0 \<le> a3" "a3 < 256"
    "0 \<le> a4" "a4 < 256" "0 \<le> a5" "a5 < 256" "0 \<le> a6" "a6 < 256" "0 \<le> a7" "a7 < 256"
  shows "0 \<le> a0 + a1 * 2 ^ 8 + a2 * 2 ^ 16 + a3 * 2 ^ 24 + a4 * 2 ^ 32 + a5 * 2 ^ 40 +
               a6 * 2 ^ 48 + a7 * 2 ^ 56"
    and "a0 + a1 * 2 ^ 8 + a2 * 2 ^ 16 + a3 * 2 ^ 24 + a4 * 2 ^ 32 + a5 * 2 ^ 40 +
           a6 * 2 ^ 48 + a7 * 2 ^ 56 < 2 ^ 64"
  using assms by simp_all

lemma littleEndianSignedValue_range:
  "- (2 ^ 63) \<le> littleEndianSignedValue buf" "littleEndianSignedValue buf < 2 ^ 63"
proof -
  have b: "uint w < 256" for w :: byte
    using uint_lt2p [of w] by simp
  define u where "u = uint (buf ! 0) + uint (buf ! 1) * 2 ^ 8 + uint (buf ! 2) * 2 ^ 16 +
              uint (buf ! 3) * 2 ^ 24 + uint (buf ! 4) * 2 ^ 32 + uint (buf ! 5) * 2 ^ 40 +
              uint (buf ! 6) * 2 ^ 48 + uint (buf ! 7) * 2 ^ 56"
  have lo: "0 \<le> u"
    unfolding u_def by (rule eight_bytes_bound) (simp_all add: b)
  have hi: "u < 2 ^ 64"
    unfolding u_def by (rule eight_bytes_bound) (simp_all add: b)
  have v: "littleEndianSignedValue buf = (if u < 2 ^ 63 then u else u - 2 ^ 64)"
    by (simp only: littleEndianSignedValue_def Let_def u_def)
  show "- (2 ^ 63) \<le> littleEndianSignedValue buf"
    unfolding v using lo hi by simp
  show "littleEndianSignedValue buf < 2 ^ 63"
    unfolding v using lo hi by simp
qed

lemma asIntN64_id: "- (2 ^ 63) \<le> v \<Longrightarrow> v < 2 ^ 63 \<Longrightarrow> asIntN64 v = v"
  by (simp add: asIntN64_def)

lemma fromBuffer_value:
  assumes "8 \<le> length buf"
  shows "fromBuffer buf =
           Inr (if littleEndianSignedValue buf < MIN_SAFE_INTEGER \<or>
                   littleEndianSignedValue buf > MAX_SAFE_INTEGER
                then BigInt (littleEndianSignedValue buf)
                else Number (littleEndianSignedValue buf))"
proof -
  let ?v = "littleEndianSignedValue buf"
  have r: "readBigInt64LE buf = Inr ?v"
    using assms by (rule readBigInt64LE_value)
  have "roundToDouble (asIntN64 ?v) = ?v"
    if "\<not> (?v < MIN_SAFE_INTEGER \<or> ?v > MAX_SAFE_INTEGER)"
  proof -
    have "asIntN64 ?v = ?v"
      by (rule asIntN64_id) (rule littleEndianSignedValue_range)+
    moreover from that have "\<bar>?v\<bar> < 2 ^ 53"
      by (auto simp: MIN_SAFE_INTEGER_def MAX_SAFE_INTEGER_def abs_less_iff)
    ultimately show ?thesis
      by (simp add: roundToDouble_safe)
  qed
  then show ?thesis
    by (simp add: fromBuffer_def r)
qed

lemma compare_decoded:
  assumes "x = (if a < MIN_SAFE_INTEGER \<or> a > MAX_SAFE_INTEGER then BigInt a else Number a)"
    and "y = (if b < MIN_SAFE_INTEGER \<or> b > MAX_SAFE_INTEGER then BigInt b else Number b)"
  shows "compare x y = sgn (a - b)"
proof (cases "a = b")
  case True
  with assms show ?thesis
    by (simp add: compare_same_representation)
next
  case False
  moreover from assms have "bigIntOf x = a" and "bigIntOf y = b" by simp_all
  ultimately show ?thesis
    using compare_different_values [of x y] by simp
qed

lemma fromBuffer_length: "fromBuffer buf = Inr x \<Longrightarrow> 8 \<le> length buf"
  by (simp add: fromBuffer_def readBigInt64LE_def split: if_splits)

text \<open>
  C4. Two longs decoded by the custom long type are ordered by \<open>compare\<close> by their
  values, whatever the representation of each. Eight bytes or more decode; a long
  decoded from its bytes is a bigint outside the safe range and a number inside it, with
  the value that the first eight bytes denote; and \<open>compare\<close> of two decoded longs is the
  sign of the difference of their values, so it is 0 exactly when the values are equal.
\<close>

theorem compare_decoded_longs:
  "(8 \<le> length b1 \<longrightarrow> (\<exists>x. fromBuffer b1 = Inr x)) \<and>
   (fromBuffer b1 = Inr x \<and> fromBuffer b2 = Inr y \<longrightarrow>
      x = (if littleEndianSignedValue b1 < MIN_SAFE_INTEGER \<or>
              littleEndianSignedValue b1 > MAX_SAFE_INTEGER
           then BigInt (littleEndianSignedValue b1) else Number (littleEndianSignedValue b1)) \<and>
      y = (if littleEndianSignedValue b2 < MIN_SAFE_INTEGER \<or>
              littleEndianSignedValue b2 > MAX_SAFE_INTEGER
           then BigInt (littleEndianSignedValue b2) else Number (littleEndianSignedValue b2)) \<and>
      compare x y = sgn (bigIntOf x - bigIntOf y) \<and>
      (compare x y = 0) = (bigIntOf x = bigIntOf y))"
proof (intro conjI impI)
  assume "8 \<le> length b1"
  then show "\<exists>x. fromBuffer b1 = Inr x"
    by (simp only: fromBuffer_value) blast
next
  assume h: "fromBuffer b1 = Inr x \<and> fromBuffer b2 = Inr y"
  let ?a = "littleEndianSignedValue b1" and ?b = "littleEndianSignedValue b2"
  from h have "8 \<le> length b1" and "8 \<le> length b2"
    by (simp_all add: fromBuffer_length)
  with h have "Inr x = (Inr (if ?a < MIN_SAFE_INTEGER \<or> ?a > MAX_SAFE_INTEGER
                              then BigInt ?a else Number ?a) :: js_error + js_long)"
    and "Inr y = (Inr (if ?b < MIN_SAFE_INTEGER \<or> ?b > MAX_SAFE_INTEGER
                        then BigInt ?b else Number ?b) :: js_error + js_long)"
    by (simp_all only: fromBuffer_value)
  then have x: "x = (if ?a < MIN_SAFE_INTEGER \<or> ?a > MAX_SAFE_INTEGER
                     then BigInt ?a else Number ?a)"
    and y: "y = (if ?b < MIN_SAFE_INTEGER \<or> ?b > MAX_SAFE_INTEGER
                 then BigInt ?b else Number ?b)"
    by (simp_all only: sum.inject)
  from x show "x = (if ?a < MIN_SAFE_INTEGER \<or> ?a > MAX_SAFE_INTEGER
                    then BigInt ?a else Number ?a)" .
  from y show "y = (if ?b < MIN_SAFE_INTEGER \<or> ?b > MAX_SAFE_INTEGER
                    then BigInt ?b else Number ?b)" .
  from x y have v: "bigIntOf x = ?a" "bigIntOf y = ?b"
    by simp_all
  have c: "compare x y = sgn (?a - ?b)"
    using x y by (rule compare_decoded)
  then show "compare x y = sgn (bigIntOf x - bigIntOf y)"
    by (simp only: v)
  from c show "(compare x y = 0) = (bigIntOf x = bigIntOf y)"
    by (simp add: v sgn_if)
qed

theorem compare_decoded_longs_witness:
  "fromBuffer [5, 0, 0, 0, 0, 0, 0, 0] = Inr (Number 5) \<and>
   fromBuffer [0, 0, 0, 0, 0, 0, 32, 0] = Inr (BigInt 9007199254740992) \<and>
   compare (Number 5) (BigInt 9007199254740992) = - 1"
proof -
  have a: "littleEndianSignedValue [5, 0, 0, 0, 0, 0, 0, 0] = 5"
    and b: "littleEndianSignedValue [0, 0, 0, 0, 0, 0, 32, 0] = 9007199254740992"
    by (simp_all add: littleEndianSignedValue_def)
  have x: "fromBuffer [5, 0, 0, 0, 0, 0, 0, 0] = Inr (Number 5)"
    and y: "fromBuffer [0, 0, 0, 0, 0, 0, 32, 0] = Inr (BigInt 9007199254740992)"
    by (simp_all add: fromBuffer_value a b MIN_SAFE_INTEGER_def MAX_SAFE_INTEGER_def)
  from compare_decoded_longs [of "[5, 0, 0, 0, 0, 0, 0, 0]" "Number 5"
      "[0, 0, 0, 0, 0, 0, 32, 0]" "BigInt 9007199254740992"] x y
  show ?thesis
    unfolding a b by (simp add: MIN_SAFE_INTEGER_def MAX_SAFE_INTEGER_def)
qed

section \<open>The subscription\<close>

lemma andThen_snd:
  "P (snd first) \<Longrightarrow> (\<And>em1. P em1 \<Longrightarrow> P (snd (second em1))) \<Longrightarrow> P (snd (andThen first second))"
  by (cases first; cases "fst first") (auto simp: andThen_def)

lemma tryCatch_snd:
  "P (snd body) \<Longrightarrow> (\<And>thrown em1. P em1 \<Longrightarrow> P (snd (handler thrown em1))) \<Longrightarrow>
   P (snd (tryCatch body handler))"
  by (cases body; cases "fst body") (auto simp: tryCatch_def)

lemma logCall_snd: "snd (logCall logger call em) = em"
  by (simp add: logCall_def)

lemma emit_snd:
  "snd (emit eventName args em)
     = em\<lparr>receivedEventCount := receivedEventCount em + (if eventName = ''data'' then 1 else 0),
          emitted := emitted em @ [(eventName, args)]\<rparr>"
  by (simp add: emit_def superEmit_def Let_def split: option.splits)

lemma emit_received:
  "receivedEventCount (snd (emit eventName args em))
     = receivedEventCount em + (if eventName = ''data'' then 1 else 0)"
  by (simp add: emit_snd)

lemma emit_requested: "requestedEventCount (snd (emit eventName args em)) = requestedEventCount em"
  by (simp add: emit_snd)

lemma emit_listener: "listener (snd (emit eventName args em)) = listener em"
  by (simp add: emit_snd)

lemma emit_count:
  "emittedCount name (snd (emit eventName args em))
     = emittedCount name em + (if eventName = name then 1 else 0)"
  by (simp add: emit_snd emittedCount_def)

lemma catchBlock_preserves:
  assumes "P em" and "\<And>args em1. P em1 \<Longrightarrow> P (snd (emit ''error'' args em1))"
  shows "P (snd (catchBlock logger latest ev error em))"
proof -
  have first: "P (snd (case decodeReplayId (replayId ev) of
                         Inl decodeError \<Rightarrow> logCall logger (LogError (JsError decodeError)) em
                       | Inr r \<Rightarrow> (None, em)))"
    using assms(1) by (simp add: logCall_snd split: sum.splits)
  show ?thesis
    unfolding catchBlock_def Let_def
    by (intro andThen_snd [where P = P] tryCatch_snd [where P = P] first)
       (simp_all add: logCall_snd assms(2))
qed

lemma lastEventCheck_preserves:
  assumes "P em" and "\<And>args em1. P em1 \<Longrightarrow> P (snd (emit ''lastevent'' args em1))"
  shows "P (snd (lastEventCheck em))"
  using assms by (simp add: lastEventCheck_def)

lemma tryBlock_fails:
  "\<not> decodes parse ev \<Longrightarrow> \<exists>e. tryBlock parse logger ev em = (Some (Exception e), em)"
  by (simp add: tryBlock_def decodes_def split: sum.splits)

lemma tryBlock_cases:
  "snd (tryBlock parse logger ev em) = em \<or>
   (\<exists>p. parse ev = Inr p \<and> snd (tryBlock parse logger ev em) = snd (emit ''data'' (ParsedEvent p) em))"
  by (cases "parse ev"; cases "logger (LogDebug (ParsedEvent (projr (parse ev))))")
     (simp_all add: tryBlock_def andThen_def logCall_def)

lemma onEvent_preserves:
  assumes "P em" and "\<And>eventName args em1. P em1 \<Longrightarrow> P (snd (emit eventName args em1))"
  shows "P (snd (onEvent parse logger latest ev em))"
proof -
  have "P (snd (tryBlock parse logger ev em))"
    using tryBlock_cases [of parse logger ev em] assms by auto
  then show ?thesis
    unfolding onEvent_def
    by (intro andThen_snd [where P = P] tryCatch_snd [where P = P]
          catchBlock_preserves [where P = P] lastEventCheck_preserves [where P = P] assms(2))
qed

lemma onEvent_listener: "listener (snd (onEvent parse logger latest ev em)) = listener em"
  by (rule onEvent_preserves [where P = "\<lambda>em'. listener em' = listener em"])
     (simp_all add: emit_listener)


lemma onEvent_received_data:
  "receivedEventCount (snd (onEvent parse logger latest ev em)) + emittedCount ''data'' em
     = receivedEventCount em + emittedCount ''data'' (snd (onEvent parse logger latest ev em))"
  by (rule onEvent_preserves [where P = "\<lambda>em'. receivedEventCount em' + emittedCount ''data'' em
     = receivedEventCount em + emittedCount ''data'' em'"])
     (simp_all add: emit_count emit_received)

lemma after_tryBlock_fails:
  assumes "\<not> decodes parse ev"
    and "P em" and "\<And>args em1. P em1 \<Longrightarrow> P (snd (emit ''error'' args em1))"
  shows "P (snd (tryCatch (tryBlock parse logger ev em) (catchBlock logger latest ev)))"
proof -
  from assms(1) obtain e where "tryBlock parse logger ev em = (Some (Exception e), em)"
    using tryBlock_fails by blast
  then have "tryCatch (tryBlock parse logger ev em) (catchBlock logger latest ev)
               = catchBlock logger latest ev (Exception e) em"
    by (simp add: tryCatch_def)
  with assms(2,3) show ?thesis
    by (simp add: catchBlock_preserves [where P = P])
qed

lemma onEvent_fails_data:
  assumes "\<not> decodes parse ev"
  shows "emittedCount ''data'' (snd (onEvent parse logger latest ev em)) = emittedCount ''data'' em"
proof -
  let ?P = "\<lambda>em'. emittedCount ''data'' em' = emittedCount ''data'' em"
  have "?P (snd (tryCatch (tryBlock parse logger ev em) (catchBlock logger latest ev)))"
    using assms by (rule after_tryBlock_fails) (simp_all add: emit_count)
  then show ?thesis
    unfolding onEvent_def
    by (intro andThen_snd [where P = ?P] lastEventCheck_preserves [where P = ?P])
       (simp_all add: emit_count)
qed

lemma onEvent_data_le:
  "emittedCount ''data'' (snd (onEvent parse logger latest ev em))
     \<le> emittedCount ''data'' em + (if decodes parse ev then 1 else 0)"
proof (cases "decodes parse ev")
  case False
  then show ?thesis by (simp add: onEvent_fails_data)
next
  case True
  let ?P = "\<lambda>em'. emittedCount ''data'' em' \<le> emittedCount ''data'' em + 1"
  have "?P (snd (tryBlock parse logger ev em))"
    using tryBlock_cases [of parse logger ev em] by (auto simp: emit_count)
  then have "?P (snd (onEvent parse logger latest ev em))"
    unfolding onEvent_def
    by (intro andThen_snd [where P = ?P] tryCatch_snd [where P = ?P]
          catchBlock_preserves [where P = ?P] lastEventCheck_preserves [where P = ?P])
       (simp_all add: emit_count)
  with True show ?thesis by simp
qed



subsection \<open>When no call throws\<close>

lemma quiet_listener: "listener em' = listener em \<Longrightarrow> quiet logger em \<Longrightarrow> quiet logger em'"
  by (simp add: quiet_def)

lemma quiet_emit: "quiet logger em \<Longrightarrow> emit eventName args em = (None, snd (emit eventName args em))"
  by (cases "listener em eventName")
     (auto simp: quiet_def emit_def superEmit_def Let_def)

lemma quiet_after_emit: "quiet logger em \<Longrightarrow> quiet logger (snd (emit eventName args em))"
  by (rule quiet_listener [OF emit_listener])

lemma quiet_logCall: "quiet logger em \<Longrightarrow> logCall logger call em' = (None, em')"
  by (simp add: quiet_def logCall_def)

lemma quiet_lastEventCheck:
  "quiet logger em \<Longrightarrow>
   lastEventCheck em =
     (None, if receivedEventCount em = requestedEventCount em
            then snd (emit ''lastevent'' NoArgs em) else em)"
  using quiet_emit [of logger em "''lastevent''" NoArgs] by (simp add: lastEventCheck_def)

lemma quiet_onEvent_decodes:
  assumes "quiet logger em" and "parse ev = Inr p"
  shows "onEvent parse logger latest ev em = lastEventCheck (snd (emit ''data'' (ParsedEvent p) em))"
proof -
  have "tryBlock parse logger ev em = (None, snd (emit ''data'' (ParsedEvent p) em))"
    using assms quiet_emit [OF assms(1), of "''data''" "ParsedEvent p"]
    by (simp add: tryBlock_def quiet_logCall [OF assms(1)] andThen_def)
  then show ?thesis
    by (simp add: onEvent_def tryCatch_def andThen_def)
qed

lemma quiet_catchBlock:
  assumes "quiet logger em"
  shows "\<exists>args. catchBlock logger latest ev error em = (None, snd (emit ''error'' args em))"
proof -
  have first: "(case decodeReplayId (replayId ev) of
                  Inl decodeError \<Rightarrow> logCall logger (LogError (JsError decodeError)) em
                | Inr r \<Rightarrow> (None, em)) = (None, em)"
    by (simp add: quiet_logCall [OF assms] split: sum.splits)
  have em: "emit ''error'' args em = (None, snd (emit ''error'' args em))" for args
    by (rule quiet_emit [OF assms])
  show ?thesis
    unfolding catchBlock_def Let_def first
    by (subst andThen_def, simp only: prod.case option.case, subst andThen_def, subst em)
       (auto simp: tryCatch_def quiet_logCall [OF assms])
qed

lemma quiet_onEvent_fails:
  assumes "quiet logger em" and "\<not> decodes parse ev"
  shows "\<exists>args. onEvent parse logger latest ev em = lastEventCheck (snd (emit ''error'' args em))"
proof -
  from assms(2) obtain e where "tryBlock parse logger ev em = (Some (Exception e), em)"
    using tryBlock_fails by blast
  moreover obtain args where
    "catchBlock logger latest ev (Exception e) em = (None, snd (emit ''error'' args em))"
    using quiet_catchBlock [OF assms(1)] by blast
  ultimately have "onEvent parse logger latest ev em = lastEventCheck (snd (emit ''error'' args em))"
    by (simp add: onEvent_def tryCatch_def andThen_def)
  then show ?thesis by blast
qed

lemma quiet_onEvent:
  assumes "quiet logger em"
  shows "\<exists>eventName args.
           eventName = (if decodes parse ev then ''data'' else ''error'') \<and>
           onEvent parse logger latest ev em = lastEventCheck (snd (emit eventName args em))"
proof (cases "decodes parse ev")
  case True
  then obtain p where "parse ev = Inr p"
    by (auto simp: decodes_def split: sum.splits)
  have "onEvent parse logger latest ev em = lastEventCheck (snd (emit ''data'' (ParsedEvent p) em))"
    using assms \<open>parse ev = Inr p\<close> by (rule quiet_onEvent_decodes)
  with True show ?thesis by auto
next
  case False
  with quiet_onEvent_fails [OF assms False] show ?thesis by auto
qed

lemma quiet_after_onEvent:
  "quiet logger em \<Longrightarrow> quiet logger (snd (onEvent parse logger latest ev em))"
  by (rule quiet_listener [OF onEvent_listener])

lemma lastEventCheck_received:
  "receivedEventCount (snd (lastEventCheck em)) = receivedEventCount em"
  by (simp add: lastEventCheck_def emit_received)

lemma lastEventCheck_count:
  "emittedCount name (snd (lastEventCheck em))
     = emittedCount name em
       + (if name = ''lastevent'' \<and> receivedEventCount em = requestedEventCount em then 1 else 0)"
  by (auto simp: lastEventCheck_def emit_count)

lemma lastEventCheck_last:
  "receivedEventCount em = requestedEventCount em \<Longrightarrow>
   last (emitted (snd (lastEventCheck em))) = (''lastevent'', NoArgs)"
  by (simp add: lastEventCheck_def emit_snd)

lemma quiet_onEvent_counts:
  assumes "quiet logger em"
  shows "fst (onEvent parse logger latest ev em) = None"
    and "receivedEventCount (snd (onEvent parse logger latest ev em))
           = receivedEventCount em + (if decodes parse ev then 1 else 0)"
    and "emittedCount ''data'' (snd (onEvent parse logger latest ev em))
           = emittedCount ''data'' em + (if decodes parse ev then 1 else 0)"
    and "emittedCount ''error'' (snd (onEvent parse logger latest ev em))
           = emittedCount ''error'' em + (if decodes parse ev then 0 else 1)"
    and "emittedCount ''lastevent'' (snd (onEvent parse logger latest ev em))
           = emittedCount ''lastevent'' em
             + (if receivedEventCount em + (if decodes parse ev then 1 else 0)
                   = requestedEventCount em then 1 else 0)"
    and "receivedEventCount em + (if decodes parse ev then 1 else 0) = requestedEventCount em \<Longrightarrow>
         last (emitted (snd (onEvent parse logger latest ev em))) = (''lastevent'', NoArgs)"
proof -
  obtain eventName args where n: "eventName = (if decodes parse ev then ''data'' else ''error'')"
    and o: "onEvent parse logger latest ev em = lastEventCheck (snd (emit eventName args em))"
    using quiet_onEvent [OF assms] by blast
  have d: "(eventName = ''data'') = decodes parse ev"
    and e: "(eventName = ''error'') = (\<not> decodes parse ev)"
    and l: "eventName \<noteq> ''lastevent''"
    using n by (cases "decodes parse ev"; simp)+
  have q: "quiet logger (snd (emit eventName args em))"
    using assms by (rule quiet_after_emit)
  show "fst (onEvent parse logger latest ev em) = None"
    unfolding o by (simp add: quiet_lastEventCheck [OF q])
  show "receivedEventCount (snd (onEvent parse logger latest ev em))
           = receivedEventCount em + (if decodes parse ev then 1 else 0)"
    unfolding o by (simp add: lastEventCheck_received emit_received d)
  show "emittedCount ''data'' (snd (onEvent parse logger latest ev em))
           = emittedCount ''data'' em + (if decodes parse ev then 1 else 0)"
    unfolding o by (simp add: lastEventCheck_count emit_count d)
  show "emittedCount ''error'' (snd (onEvent parse logger latest ev em))
           = emittedCount ''error'' em + (if decodes parse ev then 0 else 1)"
    unfolding o by (simp add: lastEventCheck_count emit_count e)
  show "emittedCount ''lastevent'' (snd (onEvent parse logger latest ev em))
           = emittedCount ''lastevent'' em
             + (if receivedEventCount em + (if decodes parse ev then 1 else 0)
                   = requestedEventCount em then 1 else 0)"
    unfolding o by (simp add: lastEventCheck_count emit_count emit_received emit_requested d l)
  show "last (emitted (snd (onEvent parse logger latest ev em))) = (''lastevent'', NoArgs)"
    if "receivedEventCount em + (if decodes parse ev then 1 else 0) = requestedEventCount em"
    unfolding o using that
    by (intro lastEventCheck_last) (simp add: emit_received emit_requested d)
qed

subsection \<open>A batch\<close>



lemma forEachEvent_received_data:
  "receivedEventCount (forEachEvent parse logger latest evs em) + emittedCount ''data'' em
     = receivedEventCount em + emittedCount ''data'' (forEachEvent parse logger latest evs em)"
proof (induction evs arbitrary: em)
  case Nil
  then show ?case by simp
next
  case (Cons ev evs)
  from Cons.IH [of "snd (onEvent parse logger latest ev em)"]
    onEvent_received_data [of parse logger latest ev em]
  show ?case by simp
qed

lemma forEachEvent_data_le:
  "emittedCount ''data'' (forEachEvent parse logger latest evs em)
     \<le> emittedCount ''data'' em + length (filter (decodes parse) evs)"
proof (induction evs arbitrary: em)
  case Nil
  then show ?case by simp
next
  case (Cons ev evs)
  from Cons.IH [of "snd (onEvent parse logger latest ev em)"]
    onEvent_data_le [of parse logger latest ev em]
  show ?case by (simp split: if_splits)
qed


lemma quiet_forEachEvent_received:
  "quiet logger em \<Longrightarrow>
   receivedEventCount (forEachEvent parse logger latest evs em)
     = receivedEventCount em + length (filter (decodes parse) evs)"
  by (induction evs arbitrary: em) (simp_all add: quiet_onEvent_counts quiet_after_onEvent)

lemma quiet_forEachEvent_data:
  "quiet logger em \<Longrightarrow>
   emittedCount ''data'' (forEachEvent parse logger latest evs em)
     = emittedCount ''data'' em + length (filter (decodes parse) evs)"
  by (induction evs arbitrary: em) (simp_all add: quiet_onEvent_counts quiet_after_onEvent)

lemma quiet_forEachEvent_error:
  "quiet logger em \<Longrightarrow>
   emittedCount ''error'' (forEachEvent parse logger latest evs em)
     = emittedCount ''error'' em + length (filter (\<lambda>ev. \<not> decodes parse ev) evs)"
  by (induction evs arbitrary: em) (simp_all add: quiet_onEvent_counts quiet_after_onEvent)



text \<open>
  C1 (as amended). For every batch of events the received-event count grows exactly
  with the \<open>data\<close> notifications, and an event that does not decode gives none: the
  count is incremented for a \<open>data\<close> notification only. When no call throws (there is a
  listener for \<open>error\<close>, and neither a listener nor the logger throws), exactly one
  notification is emitted for each event, \<open>data\<close> when it decodes and \<open>error\<close> when it does
  not, and the count grows by the number of the events that decode. In particular, in a
  batch of \<open>N\<close> events of which exactly one does not decode, one \<open>error\<close> and \<open>N - 1\<close> \<open>data\<close>
  notifications are emitted and the count grows by \<open>N - 1\<close>.
\<close>

theorem forEachEvent_counts:
  "receivedEventCount (forEachEvent parse logger latest evs em) + emittedCount ''data'' em
     = receivedEventCount em + emittedCount ''data'' (forEachEvent parse logger latest evs em) \<and>
   emittedCount ''data'' (forEachEvent parse logger latest evs em)
     \<le> emittedCount ''data'' em + length (filter (decodes parse) evs) \<and>
   (quiet logger em \<longrightarrow>
      receivedEventCount (forEachEvent parse logger latest evs em)
        = receivedEventCount em + length (filter (decodes parse) evs) \<and>
      emittedCount ''data'' (forEachEvent parse logger latest evs em)
        = emittedCount ''data'' em + length (filter (decodes parse) evs) \<and>
      emittedCount ''error'' (forEachEvent parse logger latest evs em)
        = emittedCount ''error'' em + length (filter (\<lambda>ev. \<not> decodes parse ev) evs) \<and>
      (length (filter (\<lambda>ev. \<not> decodes parse ev) evs) = 1 \<longrightarrow>
         emittedCount ''error'' (forEachEvent parse logger latest evs em)
           = emittedCount ''error'' em + 1 \<and>
         emittedCount ''data'' (forEachEvent parse logger latest evs em)
           = emittedCount ''data'' em + (length evs - 1) \<and>
         receivedEventCount (forEachEvent parse logger latest evs em)
           = receivedEventCount em + (length evs - 1)))"
proof -
  have "length (filter (decodes parse) evs) + length (filter (\<lambda>ev. \<not> decodes parse ev) evs)
          = length evs"
    by (rule sum_length_filter_compl)
  then show ?thesis
    using forEachEvent_received_data [of parse logger latest evs em]
      forEachEvent_data_le [of parse logger latest evs em]
    by (auto simp: quiet_forEachEvent_received quiet_forEachEvent_data quiet_forEachEvent_error)
qed

lemma quiet_exampleEmitter: "quiet exampleLogger (exampleEmitter requested)"
  by (auto simp: quiet_def exampleLogger_def exampleEmitter_def on_def newEmitter_def
        split: if_splits)

lemma exampleEmitter_fresh:
  "receivedEventCount (exampleEmitter requested) = 0"
  "requestedEventCount (exampleEmitter requested) = requested"
  "emittedCount name (exampleEmitter requested) = 0"
  "emitted (exampleEmitter requested) = []"
  by (simp_all add: exampleEmitter_def on_def newEmitter_def emittedCount_def)

theorem forEachEvent_counts_witness:
  "quiet exampleLogger (exampleEmitter 5) \<and>
   length (filter (\<lambda>ev. \<not> decodes exampleParse ev)
             [exampleEvent [1], exampleEvent [], exampleEvent [2, 3]]) = 1 \<and>
   emittedCount ''error''
     (forEachEvent exampleParse exampleLogger (Number 7)
        [exampleEvent [1], exampleEvent [], exampleEvent [2, 3]] (exampleEmitter 5)) = 1 \<and>
   emittedCount ''data''
     (forEachEvent exampleParse exampleLogger (Number 7)
        [exampleEvent [1], exampleEvent [], exampleEvent [2, 3]] (exampleEmitter 5)) = 2 \<and>
   receivedEventCount
     (forEachEvent exampleParse exampleLogger (Number 7)
        [exampleEvent [1], exampleEvent [], exampleEvent [2, 3]] (exampleEmitter 5)) = 2"
proof -
  have h: "length (filter (\<lambda>ev. \<not> decodes exampleParse ev)
             [exampleEvent [1], exampleEvent [], exampleEvent [2, 3]]) = 1"
    by (simp add: decodes_def exampleParse_def exampleEvent_def)
  with forEachEvent_counts [of exampleParse exampleLogger "Number 7"
      "[exampleEvent [1], exampleEvent [], exampleEvent [2, 3]]" "exampleEmitter 5"]
    quiet_exampleEmitter [of 5]
  show ?thesis
    by (simp add: exampleEmitter_fresh)
qed

theorem forEachEvent_counts_counterexample:
  "length [exampleEvent [1], exampleEvent []] = 2 \<and>
   receivedEventCount
     (forEachEvent exampleParse exampleLogger (Number 7) [exampleEvent [1], exampleEvent []]
        (exampleEmitter 5)) = 1 \<and>
   emittedCount ''data''
     (forEachEvent exampleParse exampleLogger (Number 7) [exampleEvent [1], exampleEvent []]
        (exampleEmitter 5)) = 1 \<and>
   emittedCount ''error''
     (forEachEvent exampleParse exampleLogger (Number 7) [exampleEvent [1], exampleEvent []]
        (exampleEmitter 5)) = 1"
proof -
  have "length (filter (decodes exampleParse) [exampleEvent [1], exampleEvent []]) = 1"
    and "length (filter (\<lambda>ev. \<not> decodes exampleParse ev) [exampleEvent [1], exampleEvent []]) = 1"
    by (simp_all add: decodes_def exampleParse_def exampleEvent_def)
  then show ?thesis
    by (simp only: quiet_forEachEvent_received [OF quiet_exampleEmitter]
          quiet_forEachEvent_data [OF quiet_exampleEmitter]
          quiet_forEachEvent_error [OF quiet_exampleEmitter] exampleEmitter_fresh) simp
qed

subsection \<open>When a call throws\<close>

text \<open>
  With no listener for \<open>error\<close>, \<open>emit("error", ...)\<close> throws: for an event that does not
  decode, the inner \<open>catch\<close> emits \<open>error\<close> a second time, the callback rejects and the
  check for \<open>lastevent\<close> is not reached. A listener for \<open>data\<close> that throws gives a \<open>data\<close>
  and an \<open>error\<close> notification for one event; the check is then reached only when the
  \<open>error\<close> notification is handled.
\<close>

lemma onEvent_without_error_listener:
  "map fst (emitted (snd (onEvent exampleParse exampleLogger (Number 7) (exampleEvent [])
      (newEmitter ''topic'' 0)))) = [''error'', ''error''] \<and>
   fst (onEvent exampleParse exampleLogger (Number 7) (exampleEvent [])
      (newEmitter ''topic'' 0)) \<noteq> None"
  by (simp add: onEvent_def tryBlock_def catchBlock_def tryCatch_def andThen_def
        lastEventCheck_def logCall_def emit_def superEmit_def newEmitter_def
        exampleParse_def exampleEvent_def exampleLogger_def Let_def
        split: sum.splits)

lemma onEvent_data_listener_throws:
  "map fst (emitted (snd (onEvent exampleParse exampleLogger (Number 7) (exampleEvent [1])
      (on ''data'' (\<lambda>args. Some (Exception ())) (newEmitter ''topic'' 1)))))
     = [''data'', ''error'', ''error''] \<and>
   receivedEventCount (snd (onEvent exampleParse exampleLogger (Number 7) (exampleEvent [1])
      (on ''data'' (\<lambda>args. Some (Exception ())) (newEmitter ''topic'' 1)))) = 1 \<and>
   fst (onEvent exampleParse exampleLogger (Number 7) (exampleEvent [1])
      (on ''data'' (\<lambda>args. Some (Exception ())) (newEmitter ''topic'' 1))) \<noteq> None \<and>
   map fst (emitted (snd (onEvent exampleParse exampleLogger (Number 7) (exampleEvent [1])
      (on ''error'' (\<lambda>args. None)
         (on ''data'' (\<lambda>args. Some (Exception ())) (newEmitter ''topic'' 1))))))
     = [''data'', ''error'', ''lastevent'']"
  by (simp add: onEvent_def tryBlock_def catchBlock_def tryCatch_def andThen_def
        lastEventCheck_def logCall_def emit_def superEmit_def newEmitter_def on_def
        exampleParse_def exampleEvent_def exampleLogger_def Let_def
        split: sum.splits)





subsection \<open>Keepalive\<close>







end
